theory Spec2Isabelle
  imports Complex_Main "HOL-Library.Log_Nat"
begin

section \<open>The portfolio weight optimizer\<close>

text \<open>
  The development embeds the function \<open>optimizePortfolio\<close> of the portfolio optimizer
  component twice, line by line from the same source text.

  In the first embedding, \<open>optimizePortfolio\<close>, a JavaScript number is an exact real
  number: there is no rounding, no NaN and no infinity. It is the setting of the statements
  about exact arithmetic and about the shape of the computation (the order and labels of the
  output, the branch for alpha = 1, the number of iterations).

  In the second embedding, \<open>optimizePortfolio64\<close>, a number is an IEEE 754 binary64 value
  and every operation rounds, as in the running program. It is the setting of the
  statements about the numbers the program returns.
\<close>

section \<open>The function in exact arithmetic\<close>

subsection \<open>Data\<close>

record item =
  sector :: string
  performance :: real

record weighted_item = item +
  weight :: real

text \<open>
  The only operation of the source that can throw is reading \<open>.performance\<close> of an
  array slot that does not exist (\<open>items[i]\<close> is \<open>undefined\<close> there).
\<close>

datatype error = TypeError

definition performance_at :: "item list \<Rightarrow> nat \<Rightarrow> error + real" where
  "performance_at items i =
     (if i < length items then Inr (performance (items ! i)) else Inl TypeError)"

subsection \<open>The branch for alpha = 1\<close>

text \<open>
  The loop \<open>for (let i = 1; i < n; i++)\<close> with its two variables \<open>maxIdx\<close> and
  \<open>maxPerf\<close>.
\<close>

function find_max :: "item list \<Rightarrow> nat \<Rightarrow> nat \<Rightarrow> real \<Rightarrow> error + nat" where
  "find_max items i maxIdx maxPerf =
     (if i < length items then
        (case performance_at items i of
           Inl e \<Rightarrow> Inl e
         | Inr p \<Rightarrow>
             if p > maxPerf then find_max items (i + 1) i p
             else find_max items (i + 1) maxIdx maxPerf)
      else Inr maxIdx)"
  by pat_completeness auto
termination
  by (relation "measure (\<lambda>(items, i, maxIdx, maxPerf). length items - i)") auto

declare find_max.simps [simp del]

text \<open>\<open>items.map((x, i) => ({sector, performance, weight: f(i)}))\<close>\<close>

definition with_weights :: "item list \<Rightarrow> (nat \<Rightarrow> real) \<Rightarrow> weighted_item list" where
  "with_weights items f =
     map (\<lambda>(x, i). \<lparr>sector = sector x, performance = performance x, weight = f i\<rparr>)
       (zip items [0..<length items])"

subsection \<open>One iteration of the active-set loop\<close>

text \<open>
  The arrays \<open>r\<close> and \<open>weights\<close> have length \<open>n\<close> and \<open>active\<close> is a list of
  indices. A write \<open>weights[i] = v\<close> is the list update \<open>ws[i := v]\<close> and a read is
  \<open>ws ! i\<close>; both agree with the source for \<open>i < n\<close>. The source would extend the array
  on a write past its end and read \<open>undefined\<close> there, but the active list only ever holds
  indices below \<open>n\<close> (part of \<open>loop_inv\<close> below, which every iteration preserves).
  The divisions are the source's: by \<open>freeCount\<close>, which is not 0 past the first test of
  the body, by \<open>2 * (1 - alpha)\<close>, where the function enters the loop only when alpha is
  not 1, and by \<open>sumW\<close> only when it is positive.
\<close>

text \<open>
  \<open>lambda = (alpha * sumR - 2 * (1 - alpha)) / freeCount\<close>, with
  \<open>sumR = active.reduce((acc, i) => acc + r[i], 0)\<close>, every operation exact. The value the
  program computes, with every operation rounded, is \<open>lagrange64\<close> below.
\<close>

definition lagrange :: "real list \<Rightarrow> real \<Rightarrow> nat list \<Rightarrow> real" where
  "lagrange r alpha active =
     (alpha * foldl (\<lambda>acc i. acc + r ! i) 0 active - 2 * (1 - alpha)) / real (length active)"

text \<open>
  \<open>w_i = (alpha * r[i] - lambda) / (2 * (1 - alpha))\<close>, every operation exact; the rounded
  computation is \<open>provisional64\<close> below.
\<close>

definition provisional :: "real list \<Rightarrow> real \<Rightarrow> real \<Rightarrow> nat \<Rightarrow> real" where
  "provisional r alpha lam i = (alpha * r ! i - lam) / (2 * (1 - alpha))"

text \<open>
  The first \<open>for (const i of active)\<close>: it stores every provisional weight and records
  whether one of them is negative.
\<close>

definition assign_provisional ::
  "real list \<Rightarrow> real \<Rightarrow> real \<Rightarrow> nat list \<Rightarrow> real list \<Rightarrow> real list \<times> bool" where
  "assign_provisional r alpha lam active weights =
     foldl (\<lambda>(ws, anyNegative) i.
              let w_i = provisional r alpha lam i
              in (ws[i := w_i], anyNegative \<or> w_i < 0))
       (weights, False) active"

text \<open>
  The branch \<open>if (!anyNegative)\<close>: the sum of the stored weights, then either the
  uniform fallback or the division by the sum.
\<close>

definition sumW :: "nat list \<Rightarrow> real list \<Rightarrow> real" where
  "sumW active weights = foldl (\<lambda>s i. s + weights ! i) 0 active"

definition normalize :: "nat list \<Rightarrow> real list \<Rightarrow> real list" where
  "normalize active weights =
     (let s = sumW active weights in
      if s \<le> 0 then foldl (\<lambda>ws i. ws[i := 1 / real (length active)]) weights active
      else foldl (\<lambda>ws i. ws[i := ws ! i / s]) weights active)"

text \<open>
  The last \<open>for (const i of active)\<close>: an index stays when its stored weight is
  \<open>> 0\<close>; otherwise its weight is set to 0.
\<close>

definition remove_negative :: "nat list \<Rightarrow> real list \<Rightarrow> nat list \<times> real list" where
  "remove_negative active weights =
     foldl (\<lambda>(newActive, ws) i.
              if ws ! i > 0 then (newActive @ [i], ws) else (newActive, ws[i := 0]))
       ([], weights) active"

datatype loop_step = Exit "real list" | Again "real list" "nat list"

definition loop_body :: "real list \<Rightarrow> real \<Rightarrow> real list \<Rightarrow> nat list \<Rightarrow> loop_step" where
  "loop_body r alpha weights active =
     (if length active = 0 then Exit weights
      else
        let lam = lagrange r alpha active;
            (ws, anyNegative) = assign_provisional r alpha lam active weights
        in if \<not> anyNegative then Exit (normalize active ws)
           else
             let (newActive, ws') = remove_negative active ws
             in if length newActive = length active then Exit ws'
                else Again ws' newActive)"

subsection \<open>The loop and the function\<close>

text \<open>
  \<open>while (true)\<close>. The argument \<open>iters\<close> is not a variable of the source: it counts
  the executions of the loop body, so that a bound on them can be stated.
\<close>

partial_function (option) active_set_loop ::
  "real list \<Rightarrow> real \<Rightarrow> nat \<Rightarrow> real list \<Rightarrow> nat list \<Rightarrow> (real list \<times> nat) option" where
  "active_set_loop r alpha iters weights active =
     (case loop_body r alpha weights active of
        Exit ws \<Rightarrow> Some (ws, iters + 1)
      | Again ws newActive \<Rightarrow> active_set_loop r alpha (iters + 1) ws newActive)"

declare active_set_loop.simps [code]

text \<open>
  The state at the head of iteration \<open>k + 1\<close>, when the loop gets that far: \<open>k\<close>
  executions of the body, none of which leaves the loop.
\<close>

fun loop_state ::
  "real list \<Rightarrow> real \<Rightarrow> nat \<Rightarrow> real list \<Rightarrow> nat list \<Rightarrow> (real list \<times> nat list) option" where
  "loop_state r alpha 0 weights active = Some (weights, active)"
| "loop_state r alpha (Suc k) weights active =
     (case loop_body r alpha weights active of
        Exit ws \<Rightarrow> None
      | Again ws newActive \<Rightarrow> loop_state r alpha k ws newActive)"

text \<open>
  The whole function, with the number of loop iterations beside its result. \<open>None\<close>
  stands for a call that does not return, \<open>Inl\<close> for a thrown error.
\<close>

definition portfolio_run ::
  "item list \<Rightarrow> real \<Rightarrow> (error + weighted_item list \<times> nat) option" where
  "portfolio_run items alpha =
     (let n = length items in
      if n = 0 then Some (Inr ([], 0))
      else if alpha = 1 then
        (case performance_at items 0 of
           Inl e \<Rightarrow> Some (Inl e)
         | Inr maxPerf \<Rightarrow>
             (case find_max items 1 0 maxPerf of
                Inl e \<Rightarrow> Some (Inl e)
              | Inr maxIdx \<Rightarrow>
                  Some (Inr (with_weights items (\<lambda>i. if i = maxIdx then 1 else 0), 0))))
      else
        (case active_set_loop (map performance items) alpha 0 (replicate n 0) [0..<n] of
           None \<Rightarrow> None
         | Some (ws, iters) \<Rightarrow> Some (Inr (with_weights items (\<lambda>i. ws ! i), iters))))"

definition optimizePortfolio :: "item list \<Rightarrow> real \<Rightarrow> (error + weighted_item list) option" where
  "optimizePortfolio items alpha = map_option (map_sum id fst) (portfolio_run items alpha)"


definition feasible :: "nat \<Rightarrow> real list \<Rightarrow> bool" where
  "feasible n w \<longleftrightarrow> length w = n \<and> list_all (\<lambda>x. 0 \<le> x) w \<and> sum_list w = 1"

subsection \<open>Predicates used in the proofs\<close>

text \<open>
  The invariant at the head of every iteration: the active list is non-empty, holds distinct
  indices below \<open>n\<close>, and every index outside it has weight 0.
\<close>

definition loop_inv :: "nat \<Rightarrow> real list \<Rightarrow> nat list \<Rightarrow> bool" where
  "loop_inv n ws act \<longleftrightarrow>
     length ws = n \<and> act \<noteq> [] \<and> distinct act \<and> (\<forall>i\<in>set act. i < n) \<and>
     (\<forall>j<n. j \<notin> set act \<longrightarrow> ws ! j = 0)"

text \<open>
  What the loop leaves behind: on a non-empty active list the weights are the provisional
  weights of that list, all non-negative, and 0 elsewhere. The second predicate says that
  the multiplier of the list dominates \<open>alpha * r[j]\<close> for every index outside it.
\<close>

definition stationary :: "real list \<Rightarrow> real \<Rightarrow> nat \<Rightarrow> nat list \<Rightarrow> real list \<Rightarrow> bool" where
  "stationary r alpha n act ws \<longleftrightarrow>
     length ws = n \<and> act \<noteq> [] \<and> distinct act \<and> (\<forall>i\<in>set act. i < n) \<and>
     (\<forall>j<n. ws ! j =
        (if j \<in> set act then provisional r alpha (lagrange r alpha act) j else 0)) \<and>
     (\<forall>i\<in>set act. 0 \<le> provisional r alpha (lagrange r alpha act) i)"

definition dual_feasible :: "real list \<Rightarrow> real \<Rightarrow> nat \<Rightarrow> nat list \<Rightarrow> bool" where
  "dual_feasible r alpha n act \<longleftrightarrow>
     (\<forall>j<n. j \<notin> set act \<longrightarrow> alpha * r ! j \<le> lagrange r alpha act)"

text \<open>
  The path condition of the uniform fallback \<open>weights[i] = 1 / freeCount\<close>: an iteration
  started in this state finds no negative provisional weight and a sum that is not positive.
\<close>

definition takes_fallback :: "real list \<Rightarrow> real \<Rightarrow> real list \<Rightarrow> nat list \<Rightarrow> bool" where
  "takes_fallback r alpha weights active \<longleftrightarrow>
     length active \<noteq> 0 \<and>
     (let (ws, anyNegative) =
            assign_provisional r alpha (lagrange r alpha active) active weights
      in \<not> anyNegative \<and> sumW active ws \<le> 0)"

section \<open>The function in binary64 arithmetic\<close>

text \<open>
  A JavaScript number is an IEEE 754 binary64 value: a finite number of the form
  \<open>m * 2^k\<close> with \<open>|m| < 2^53\<close> and \<open>-1074 \<le> k \<le> 971\<close>, an infinity, or NaN. Every
  arithmetic operation of the source returns the exact result rounded to the nearest such
  number, ties to the even significand, and an infinity when the rounded result reaches
  \<open>2^1024\<close>. This section repeats the function with that arithmetic.

  The two zeros of binary64 are identified. The function never divides by a zero
  (\<open>freeCount\<close> is at least 1 in the loop body; \<open>2 * (1 - alpha)\<close> is a zero only for
  alpha = 1, which returns before the loop; \<open>sumW\<close> divides only when it is positive),
  and its comparisons \<open>< 0\<close>, \<open>> 0\<close>, \<open><= 0\<close> and \<open>=== 1\<close> do not tell the zeros apart,
  so the sign of a zero decides nothing but the sign of a returned zero weight.
\<close>

subsection \<open>Rounding\<close>

datatype double = Fin real | PInf | NInf | NaN

text \<open>The binary exponent of a non-zero real: \<open>2^(expo x) \<le> |x| < 2^(expo x + 1)\<close>.\<close>

definition expo :: "real \<Rightarrow> int" where
  "expo x = (if 1 \<le> \<bar>x\<bar> then bitlen \<lfloor>\<bar>x\<bar>\<rfloor> - 1 else - bitlen (\<lceil>1 / \<bar>x\<bar>\<rceil> - 1))"

text \<open>Rounding to the nearest integer, a tie going to the even one.\<close>

definition round_even :: "real \<Rightarrow> int" where
  "round_even z =
     (let f = \<lfloor>z\<rfloor>; d = z - of_int f
      in if d < 1 / 2 then f else if 1 / 2 < d then f + 1 else if even f then f else f + 1)"

text \<open>
  The spacing of the binary64 numbers around \<open>x\<close>: 53 significant bits, and the fixed
  spacing \<open>2^(-1074)\<close> of the subnormal numbers below \<open>2^(-1022)\<close>.
\<close>

definition grid :: "real \<Rightarrow> real" where
  "grid x = power_int 2 (max (expo x) (- 1022) - 52)"

definition nearest :: "real \<Rightarrow> real" where
  "nearest x = of_int (round_even (x / grid x)) * grid x"

text \<open>The binary64 value of an exact result.\<close>

definition rnd :: "real \<Rightarrow> double" where
  "rnd x =
     (let y = nearest x
      in if power_int 2 1024 \<le> y then PInf
         else if y \<le> - power_int 2 1024 then NInf
         else Fin y)"

text \<open>The largest finite binary64 number.\<close>

definition max_double :: real where
  "max_double = (2 ^ 53 - 1) * 2 ^ 971"

subsection \<open>The operations of the source\<close>

text \<open>
  \<open>-\<close>, \<open>+\<close>, \<open>*\<close>, \<open>/\<close>, \<open><\<close> and \<open>===\<close> on numbers. A subtraction \<open>a - b\<close> is
  \<open>a + (-b)\<close>; \<open>a <= b\<close> is \<open>a < b\<close> or \<open>a === b\<close>, and \<open>a > b\<close> is \<open>b < a\<close>. Every
  comparison with NaN is false.
\<close>

fun fneg :: "double \<Rightarrow> double" where
  "fneg (Fin x) = Fin (- x)"
| "fneg PInf = NInf"
| "fneg NInf = PInf"
| "fneg NaN = NaN"

fun fadd :: "double \<Rightarrow> double \<Rightarrow> double" where
  "fadd (Fin x) (Fin y) = rnd (x + y)"
| "fadd NaN b = NaN"
| "fadd a NaN = NaN"
| "fadd PInf NInf = NaN"
| "fadd NInf PInf = NaN"
| "fadd PInf b = PInf"
| "fadd a PInf = PInf"
| "fadd NInf b = NInf"
| "fadd a NInf = NInf"

definition fsub :: "double \<Rightarrow> double \<Rightarrow> double" where
  "fsub a b = fadd a (fneg b)"

fun negative :: "double \<Rightarrow> bool" where
  "negative (Fin x) = (x < 0)"
| "negative NInf = True"
| "negative d = False"

fun fmul :: "double \<Rightarrow> double \<Rightarrow> double" where
  "fmul (Fin x) (Fin y) = rnd (x * y)"
| "fmul NaN b = NaN"
| "fmul a NaN = NaN"
| "fmul a b =
     (if a = Fin 0 \<or> b = Fin 0 then NaN
      else if negative a = negative b then PInf else NInf)"

fun fdiv :: "double \<Rightarrow> double \<Rightarrow> double" where
  "fdiv (Fin x) (Fin y) =
     (if y = 0 then (if x = 0 then NaN else if 0 < x then PInf else NInf)
      else rnd (x / y))"
| "fdiv NaN b = NaN"
| "fdiv a NaN = NaN"
| "fdiv (Fin x) b = Fin 0"
| "fdiv a (Fin y) = (if negative a = (y < 0) then PInf else NInf)"
| "fdiv a b = NaN"

fun flt :: "double \<Rightarrow> double \<Rightarrow> bool" where
  "flt (Fin x) (Fin y) = (x < y)"
| "flt NaN b = False"
| "flt a NaN = False"
| "flt NInf b = (b \<noteq> NInf)"
| "flt a PInf = (a \<noteq> PInf)"
| "flt a b = False"

definition feq :: "double \<Rightarrow> double \<Rightarrow> bool" where
  "feq a b \<longleftrightarrow> a = b \<and> a \<noteq> NaN"

definition fle :: "double \<Rightarrow> double \<Rightarrow> bool" where
  "fle a b \<longleftrightarrow> flt a b \<or> feq a b"

subsection \<open>The function\<close>

text \<open>
  The definitions below are those of the first part, name by name, with the binary64
  operations in place of the exact ones. The literals 0, 1 and 2 and the count
  \<open>freeCount\<close> are binary64 numbers as they stand.
\<close>

record item64 =
  sector64 :: string
  performance64 :: double

record weighted_item64 = item64 +
  weight64 :: double

definition performance_at64 :: "item64 list \<Rightarrow> nat \<Rightarrow> error + double" where
  "performance_at64 items i =
     (if i < length items then Inr (performance64 (items ! i)) else Inl TypeError)"

text \<open>\<open>if (items[i].performance > maxPerf)\<close>\<close>

function find_max64 :: "item64 list \<Rightarrow> nat \<Rightarrow> nat \<Rightarrow> double \<Rightarrow> error + nat" where
  "find_max64 items i maxIdx maxPerf =
     (if i < length items then
        (case performance_at64 items i of
           Inl e \<Rightarrow> Inl e
         | Inr p \<Rightarrow>
             if flt maxPerf p then find_max64 items (i + 1) i p
             else find_max64 items (i + 1) maxIdx maxPerf)
      else Inr maxIdx)"
  by pat_completeness auto
termination
  by (relation "measure (\<lambda>(items, i, maxIdx, maxPerf). length items - i)") auto

declare find_max64.simps [simp del]

definition with_weights64 :: "item64 list \<Rightarrow> (nat \<Rightarrow> double) \<Rightarrow> weighted_item64 list" where
  "with_weights64 items f =
     map (\<lambda>(x, i). \<lparr>sector64 = sector64 x, performance64 = performance64 x, weight64 = f i\<rparr>)
       (zip items [0..<length items])"

text \<open>
  \<open>lambda = (alpha * sumR - 2 * (1 - alpha)) / freeCount\<close>, with
  \<open>sumR = active.reduce((acc, i) => acc + r[i], 0)\<close>: six rounded operations and the
  rounded additions of the sum, in the order of the source.
\<close>

definition lagrange64 :: "double list \<Rightarrow> double \<Rightarrow> nat list \<Rightarrow> double" where
  "lagrange64 r alpha active =
     fdiv (fsub (fmul alpha (foldl (\<lambda>acc i. fadd acc (r ! i)) (Fin 0) active))
                (fmul (Fin 2) (fsub (Fin 1) alpha)))
          (Fin (real (length active)))"

text \<open>\<open>w_i = (alpha * r[i] - lambda) / (2 * (1 - alpha))\<close>\<close>

definition provisional64 :: "double list \<Rightarrow> double \<Rightarrow> double \<Rightarrow> nat \<Rightarrow> double" where
  "provisional64 r alpha lam i =
     fdiv (fsub (fmul alpha (r ! i)) lam) (fmul (Fin 2) (fsub (Fin 1) alpha))"

text \<open>\<open>weights[i] = w_i; if (w_i < 0) anyNegative = true\<close>\<close>

definition assign_provisional64 ::
  "double list \<Rightarrow> double \<Rightarrow> double \<Rightarrow> nat list \<Rightarrow> double list \<Rightarrow> double list \<times> bool" where
  "assign_provisional64 r alpha lam active weights =
     foldl (\<lambda>(ws, anyNegative) i.
              let w_i = provisional64 r alpha lam i
              in (ws[i := w_i], anyNegative \<or> flt w_i (Fin 0)))
       (weights, False) active"

text \<open>
  \<open>sumW += weights[i]\<close>, then \<open>if (sumW <= 0) weights[i] = 1 / freeCount\<close>, else
  \<open>weights[i] /= sumW\<close>.
\<close>

definition sumW64 :: "nat list \<Rightarrow> double list \<Rightarrow> double" where
  "sumW64 active weights = foldl (\<lambda>s i. fadd s (weights ! i)) (Fin 0) active"

definition normalize64 :: "nat list \<Rightarrow> double list \<Rightarrow> double list" where
  "normalize64 active weights =
     (let s = sumW64 active weights in
      if fle s (Fin 0)
      then foldl (\<lambda>ws i. ws[i := fdiv (Fin 1) (Fin (real (length active)))]) weights active
      else foldl (\<lambda>ws i. ws[i := fdiv (ws ! i) s]) weights active)"

text \<open>\<open>if (weights[i] > 0) newActive.push(i); else weights[i] = 0\<close>\<close>

definition remove_negative64 :: "nat list \<Rightarrow> double list \<Rightarrow> nat list \<times> double list" where
  "remove_negative64 active weights =
     foldl (\<lambda>(newActive, ws) i.
              if flt (Fin 0) (ws ! i) then (newActive @ [i], ws) else (newActive, ws[i := Fin 0]))
       ([], weights) active"

datatype loop_step64 = Exit64 "double list" | Again64 "double list" "nat list"

definition loop_body64 :: "double list \<Rightarrow> double \<Rightarrow> double list \<Rightarrow> nat list \<Rightarrow> loop_step64" where
  "loop_body64 r alpha weights active =
     (if length active = 0 then Exit64 weights
      else
        let lam = lagrange64 r alpha active;
            (ws, anyNegative) = assign_provisional64 r alpha lam active weights
        in if \<not> anyNegative then Exit64 (normalize64 active ws)
           else
             let (newActive, ws') = remove_negative64 active ws
             in if length newActive = length active then Exit64 ws'
                else Again64 ws' newActive)"

text \<open>\<open>while (true)\<close>: the value \<open>None\<close> stands for a loop that does not return.\<close>

partial_function (option) active_set_loop64 ::
  "double list \<Rightarrow> double \<Rightarrow> double list \<Rightarrow> nat list \<Rightarrow> double list option" where
  "active_set_loop64 r alpha weights active =
     (case loop_body64 r alpha weights active of
        Exit64 ws \<Rightarrow> Some ws
      | Again64 ws newActive \<Rightarrow> active_set_loop64 r alpha ws newActive)"

declare active_set_loop64.simps [code]

definition optimizePortfolio64 ::
  "item64 list \<Rightarrow> double \<Rightarrow> (error + weighted_item64 list) option" where
  "optimizePortfolio64 items alpha =
     (let n = length items in
      if n = 0 then Some (Inr [])
      else if feq alpha (Fin 1) then
        (case performance_at64 items 0 of
           Inl e \<Rightarrow> Some (Inl e)
         | Inr maxPerf \<Rightarrow>
             (case find_max64 items 1 0 maxPerf of
                Inl e \<Rightarrow> Some (Inl e)
              | Inr maxIdx \<Rightarrow>
                  Some (Inr (with_weights64 items (\<lambda>i. if i = maxIdx then Fin 1 else Fin 0)))))
      else
        (case active_set_loop64 (map performance64 items) alpha (replicate n (Fin 0)) [0..<n] of
           None \<Rightarrow> None
         | Some ws \<Rightarrow> Some (Inr (with_weights64 items (\<lambda>i. ws ! i)))))"

section \<open>Properties of the function in exact arithmetic\<close>

subsection \<open>The loops over the active list\<close>

lemma foldl_add_sum_list: "foldl (\<lambda>acc i. acc + f i) a xs = a + sum_list (map f xs)"
  for a :: real
  by (induction xs arbitrary: a) (simp_all add: add.assoc)

lemma foldl_store_length: "length (foldl (\<lambda>ws i. ws[i := f ws i]) ws act) = length ws"
  by (induction act arbitrary: ws) simp_all

lemma foldl_store_nth:
  "j < length ws \<Longrightarrow>
   foldl (\<lambda>ws i. ws[i := f i]) ws act ! j = (if j \<in> set act then f j else ws ! j)"
  by (induction act arbitrary: ws) (auto simp: nth_list_update)

lemma foldl_divide_nth:
  "distinct act \<Longrightarrow> j < length ws \<Longrightarrow>
   foldl (\<lambda>ws i. ws[i := ws ! i / s]) ws act ! j = (if j \<in> set act then ws ! j / s else ws ! j)"
  for s :: real
proof (induction act arbitrary: ws)
  case Nil
  then show ?case by simp
next
  case (Cons a act)
  from Cons.prems have a: "a \<notin> set act" and d: "distinct act" by simp_all
  have "foldl (\<lambda>ws i. ws[i := ws ! i / s]) (ws[a := ws ! a / s]) act ! j =
      (if j \<in> set act then ws[a := ws ! a / s] ! j / s else ws[a := ws ! a / s] ! j)"
    using Cons.IH [OF d, of "ws[a := ws ! a / s]"] Cons.prems(2) by simp
  also have "\<dots> = (if j \<in> set (a # act) then ws ! j / s else ws ! j)"
    using a Cons.prems(2) by (cases "j = a") simp_all
  finally show ?case by simp
qed

lemma assign_provisional_eq:
  "assign_provisional r alpha lam act ws =
     (foldl (\<lambda>ws i. ws[i := provisional r alpha lam i]) ws act,
      \<exists>i\<in>set act. provisional r alpha lam i < 0)"
proof -
  have "foldl (\<lambda>(ws, anyNegative) i.
              let w_i = provisional r alpha lam i
              in (ws[i := w_i], anyNegative \<or> w_i < 0)) (ws, b) act =
     (foldl (\<lambda>ws i. ws[i := provisional r alpha lam i]) ws act,
      b \<or> (\<exists>i\<in>set act. provisional r alpha lam i < 0))" for b
    by (induction act arbitrary: ws b) (auto simp: Let_def)
  then show ?thesis by (simp add: assign_provisional_def)
qed

lemma positive_after_reset:
  "\<not> 0 < ws ! a \<Longrightarrow> (0 < ws[a := 0] ! i) = (0 < ws ! i)" for ws :: "real list"
  by (cases "i = a"; cases "a < length ws") (simp_all add: list_update_beyond)

lemma remove_negative_fold:
  "foldl (\<lambda>(newActive, ws) i.
              if ws ! i > 0 then (newActive @ [i], ws) else (newActive, ws[i := 0]))
       (acc, ws) act =
   (acc @ filter (\<lambda>i. 0 < ws ! i) act,
    foldl (\<lambda>ws i. if ws ! i > 0 then ws else ws[i := 0]) ws act)"
  for ws :: "real list"
proof (induction act arbitrary: acc ws)
  case Nil
  then show ?case by simp
next
  case (Cons a act)
  show ?case
  proof (cases "0 < ws ! a")
    case True
    then show ?thesis by (simp add: Cons.IH)
  next
    case False
    then have "filter (\<lambda>i. 0 < ws[a := 0] ! i) act = filter (\<lambda>i. 0 < ws ! i) act"
      by (simp add: positive_after_reset)
    with False show ?thesis by (simp add: Cons.IH)
  qed
qed

lemma foldl_reset_length:
  "length (foldl (\<lambda>ws i. if ws ! i > 0 then ws else ws[i := (0::real)]) ws act) = length ws"
  by (induction act arbitrary: ws) simp_all

lemma foldl_reset_nth:
  "j < length ws \<Longrightarrow>
   foldl (\<lambda>ws i. if ws ! i > 0 then ws else ws[i := (0::real)]) ws act ! j =
     (if j \<in> set act \<and> \<not> 0 < ws ! j then 0 else ws ! j)"
proof (induction act arbitrary: ws)
  case Nil
  then show ?case by simp
next
  case (Cons a act)
  show ?case
  proof (cases "0 < ws ! a")
    case True
    with Cons show ?thesis by auto
  next
    case False
    have "foldl (\<lambda>ws i. if ws ! i > 0 then ws else ws[i := (0::real)]) (ws[a := 0]) act ! j =
        (if j \<in> set act \<and> \<not> 0 < ws[a := 0] ! j then 0 else ws[a := 0] ! j)"
      using Cons.IH [of "ws[a := 0]"] Cons.prems by simp
    also have "\<dots> = (if j \<in> set (a # act) \<and> \<not> 0 < ws ! j then 0 else ws ! j)"
      using False Cons.prems by (cases "j = a") (simp_all add: positive_after_reset)
    finally show ?thesis using False by simp
  qed
qed

lemma remove_negative_eq:
  "remove_negative act ws =
     (filter (\<lambda>i. 0 < ws ! i) act,
      foldl (\<lambda>ws i. if ws ! i > 0 then ws else ws[i := 0]) ws act)"
  using remove_negative_fold [of "[]" ws act] by (simp add: remove_negative_def)

subsection \<open>One iteration\<close>

lemma lagrange_eq:
  "lagrange r alpha act =
     (alpha * sum_list (map ((!) r) act) - 2 * (1 - alpha)) / real (length act)"
  by (simp add: lagrange_def foldl_add_sum_list)

lemma sum_list_affine:
  "sum_list (map (\<lambda>i. (a * f i - l) / c) xs) =
     (a * sum_list (map f xs) - real (length xs) * l) / c" for a l c :: real
  by (induction xs) (simp_all add: algebra_simps add_divide_distrib diff_divide_distrib)

lemma sum_provisional:
  assumes "alpha \<noteq> 1" and "act \<noteq> []"
  shows "sum_list (map (provisional r alpha (lagrange r alpha act)) act) = 1"
proof -
  have k: "real (length act) \<noteq> 0" using assms(2) by simp
  have c: "2 * (1 - alpha) \<noteq> 0" using assms(1) by simp
  have "real (length act) * lagrange r alpha act =
      alpha * sum_list (map ((!) r) act) - 2 * (1 - alpha)"
    using k by (simp add: lagrange_eq)
  then have "sum_list (map (provisional r alpha (lagrange r alpha act)) act) =
      (2 * (1 - alpha)) / (2 * (1 - alpha))"
    unfolding provisional_def sum_list_affine by simp
  then show ?thesis using c by simp
qed

lemma stored_weights:
  fixes r :: "real list" and alpha lam :: real
  assumes "loop_inv n ws act"
  defines "ws1 \<equiv> fst (assign_provisional r alpha lam act ws)"
  shows "length ws1 = n"
    and "\<forall>j<n. ws1 ! j = (if j \<in> set act then provisional r alpha lam j else 0)"
    and "map ((!) ws1) act = map (provisional r alpha lam) act"
proof -
  from assms(1) have len: "length ws = n" and bnd: "\<forall>i\<in>set act. i < n"
    and zero: "\<forall>j<n. j \<notin> set act \<longrightarrow> ws ! j = 0"
    by (simp_all add: loop_inv_def)
  show "length ws1 = n"
    by (simp add: ws1_def assign_provisional_eq foldl_store_length len)
  show nth: "\<forall>j<n. ws1 ! j = (if j \<in> set act then provisional r alpha lam j else 0)"
    using zero by (simp add: ws1_def assign_provisional_eq foldl_store_nth len)
  show "map ((!) ws1) act = map (provisional r alpha lam) act"
    using nth bnd by simp
qed

lemma loop_body_exit:
  fixes r :: "real list" and alpha :: real
  assumes inv: "loop_inv n ws act" and a: "alpha \<noteq> 1"
    and nn: "\<forall>i\<in>set act. 0 \<le> provisional r alpha (lagrange r alpha act) i"
  shows "\<exists>wsF. loop_body r alpha ws act = Exit wsF \<and> length wsF = n \<and>
           (\<forall>j<n. wsF ! j =
              (if j \<in> set act then provisional r alpha (lagrange r alpha act) j else 0))"
proof -
  define lam where "lam = lagrange r alpha act"
  define ws1 where "ws1 = fst (assign_provisional r alpha lam act ws)"
  from inv have ne: "act \<noteq> []" and d: "distinct act" by (simp_all add: loop_inv_def)
  have ap: "assign_provisional r alpha lam act ws = (ws1, False)"
    using nn by (auto simp: ws1_def assign_provisional_eq lam_def not_less)
  have len1: "length ws1 = n"
    and nth1: "\<forall>j<n. ws1 ! j = (if j \<in> set act then provisional r alpha lam j else 0)"
    and map1: "map ((!) ws1) act = map (provisional r alpha lam) act"
    unfolding ws1_def by (rule stored_weights [OF inv])+
  have s1: "sumW act ws1 = 1"
    using sum_provisional [OF a ne, of r]
    by (simp add: sumW_def foldl_add_sum_list map1 lam_def)
  have body: "loop_body r alpha ws act = Exit (normalize act ws1)"
    using ne ap by (simp add: loop_body_def lam_def [symmetric])
  have norm: "normalize act ws1 = foldl (\<lambda>ws i. ws[i := ws ! i / 1]) ws1 act"
    by (simp add: normalize_def s1)
  have "length (normalize act ws1) = n"
    unfolding norm by (simp only: foldl_store_length len1)
  moreover have "\<forall>j<n. normalize act ws1 ! j =
      (if j \<in> set act then provisional r alpha lam j else 0)"
    unfolding norm using nth1 len1 d by (simp add: foldl_divide_nth del: div_by_1)
  ultimately show ?thesis using body by (simp add: lam_def)
qed

lemma sum_list_nonpos_real:
  "\<forall>x\<in>set xs. f x \<le> (0::real) \<Longrightarrow> sum_list (map f xs) \<le> 0"
  by (induction xs) (simp_all add: add_nonpos_nonpos)

lemma loop_body_again:
  fixes r :: "real list" and alpha :: real
  assumes inv: "loop_inv n ws act" and a: "alpha \<noteq> 1"
    and neg: "\<exists>i\<in>set act. provisional r alpha (lagrange r alpha act) i < 0"
  defines "act' \<equiv> filter (\<lambda>i. 0 < provisional r alpha (lagrange r alpha act) i) act"
  shows "\<exists>ws'. loop_body r alpha ws act = Again ws' act' \<and> loop_inv n ws' act' \<and>
           (\<forall>j<n. ws' ! j =
              (if j \<in> set act' then provisional r alpha (lagrange r alpha act) j else 0))"
    and "length act' < length act"
proof -
  define lam where "lam = lagrange r alpha act"
  define ws1 where "ws1 = fst (assign_provisional r alpha lam act ws)"
  define ws2 where "ws2 = foldl (\<lambda>ws i. if ws ! i > 0 then ws else ws[i := 0]) ws1 act"
  from inv have ne: "act \<noteq> []" and d: "distinct act" and bnd: "\<forall>i\<in>set act. i < n"
    by (simp_all add: loop_inv_def)
  have ap: "assign_provisional r alpha lam act ws = (ws1, True)"
    using neg by (auto simp: ws1_def assign_provisional_eq lam_def)
  have len1: "length ws1 = n"
    and nth1: "\<forall>j<n. ws1 ! j = (if j \<in> set act then provisional r alpha lam j else 0)"
    and map1: "map ((!) ws1) act = map (provisional r alpha lam) act"
    unfolding ws1_def by (rule stored_weights [OF inv])+
  have flt: "filter (\<lambda>i. 0 < ws1 ! i) act = act'"
    unfolding act'_def lam_def [symmetric]
    by (rule filter_cong [OF refl]) (use nth1 bnd in simp)
  have rn: "remove_negative act ws1 = (act', ws2)"
    by (simp add: remove_negative_eq flt ws2_def)
  show shorter: "length act' < length act"
    using neg unfolding act'_def by (auto intro!: length_filter_less)
  have len2: "length ws2 = n"
    by (simp add: ws2_def foldl_reset_length len1)
  have nth2: "\<forall>j<n. ws2 ! j = (if j \<in> set act' then provisional r alpha lam j else 0)"
    using nth1 len1
    by (auto simp: ws2_def foldl_reset_nth act'_def lam_def)
  have "\<exists>i\<in>set act. 0 < provisional r alpha lam i"
  proof (rule ccontr)
    assume "\<not> ?thesis"
    then have "\<forall>i\<in>set act. provisional r alpha lam i \<le> 0" by (simp add: not_less)
    then have "sum_list (map (provisional r alpha lam) act) \<le> 0"
      by (rule sum_list_nonpos_real)
    then show False using sum_provisional [OF a ne, of r] by (simp add: lam_def)
  qed
  then have ne': "act' \<noteq> []"
    by (auto simp: act'_def lam_def filter_empty_conv)
  have inv': "loop_inv n ws2 act'"
    using len2 ne' d bnd nth2 by (simp add: loop_inv_def act'_def)
  have body: "loop_body r alpha ws act = Again ws2 act'"
    using ne ap rn shorter by (simp add: loop_body_def lam_def [symmetric])
  show "\<exists>ws'. loop_body r alpha ws act = Again ws' act' \<and> loop_inv n ws' act' \<and>
           (\<forall>j<n. ws' ! j =
              (if j \<in> set act' then provisional r alpha (lagrange r alpha act) j else 0))"
    using body inv' nth2 by (auto simp: lam_def)
qed

subsection \<open>The multiplier grows when indices are removed\<close>

lemma sum_list_filter_bound:
  fixes f :: "nat \<Rightarrow> real"
  assumes "\<forall>i\<in>set xs. \<not> P i \<longrightarrow> f i \<le> l"
  shows "sum_list (map f xs) \<le>
    sum_list (map f (filter P xs)) + (real (length xs) - real (length (filter P xs))) * l"
  using assms by (induction xs) (auto simp: algebra_simps)

lemma removed_below_lagrange:
  assumes "alpha < 1" and "\<not> 0 < provisional r alpha lam i"
  shows "alpha * r ! i \<le> lam"
proof -
  have c: "0 < 2 * (1 - alpha)" using assms(1) by simp
  from assms(2) have "(alpha * r ! i - lam) / (2 * (1 - alpha)) \<le> 0"
    by (simp add: provisional_def not_less)
  with c have "alpha * r ! i - lam \<le> 0"
    by (simp add: divide_le_0_iff not_le)
  then show ?thesis by simp
qed

lemma lagrange_mono:
  fixes r :: "real list" and alpha :: real
  defines "act' \<equiv> \<lambda>act. filter (\<lambda>i. 0 < provisional r alpha (lagrange r alpha act) i) act"
  assumes a: "alpha < 1" and ne: "act \<noteq> []" and ne': "act' act \<noteq> []"
  shows "lagrange r alpha act \<le> lagrange r alpha (act' act)"
proof -
  define lam where "lam = lagrange r alpha act"
  define k where "k = real (length act)"
  define k' where "k' = real (length (act' act))"
  define S where "S = sum_list (map ((!) r) act)"
  define S' where "S' = sum_list (map ((!) r) (act' act))"
  have kpos: "0 < k" and k'pos: "0 < k'" using ne ne' by (simp_all add: k_def k'_def)
  have rem: "\<forall>i\<in>set act. \<not> 0 < provisional r alpha lam i \<longrightarrow> alpha * r ! i \<le> lam"
    using removed_below_lagrange [OF a] by blast
  have "sum_list (map (\<lambda>i. alpha * r ! i) act) \<le>
      sum_list (map (\<lambda>i. alpha * r ! i) (act' act)) + (k - k') * lam"
    unfolding k_def k'_def act'_def lam_def [symmetric]
    by (rule sum_list_filter_bound [OF rem])
  then have 1: "alpha * S \<le> alpha * S' + (k - k') * lam"
    by (simp add: sum_list_const_mult S_def S'_def)
  have 2: "k * lam = alpha * S - 2 * (1 - alpha)"
    using kpos by (simp add: lam_def lagrange_eq k_def S_def)
  have 3: "k' * lagrange r alpha (act' act) = alpha * S' - 2 * (1 - alpha)"
    using k'pos by (simp add: lagrange_eq k'_def S'_def)
  from 1 2 3 have "k' * lam \<le> k' * lagrange r alpha (act' act)"
    by (simp add: algebra_simps)
  with k'pos show ?thesis by (simp add: lam_def)
qed

lemma dual_feasible_step:
  fixes r :: "real list" and alpha :: real
  defines "act' \<equiv> \<lambda>act. filter (\<lambda>i. 0 < provisional r alpha (lagrange r alpha act) i) act"
  assumes a: "alpha < 1" and ne: "act \<noteq> []" and ne': "act' act \<noteq> []"
    and df: "dual_feasible r alpha n act"
  shows "dual_feasible r alpha n (act' act)"
  unfolding dual_feasible_def
proof (intro allI impI)
  fix j assume j: "j < n" and out: "j \<notin> set (act' act)"
  have mono: "lagrange r alpha act \<le> lagrange r alpha (act' act)"
    unfolding act'_def by (rule lagrange_mono [OF a ne ne' [unfolded act'_def]])
  have "alpha * r ! j \<le> lagrange r alpha act"
  proof (cases "j \<in> set act")
    case True
    with out have "\<not> 0 < provisional r alpha (lagrange r alpha act) j"
      by (simp add: act'_def)
    then show ?thesis by (rule removed_below_lagrange [OF a])
  next
    case False
    with df j show ?thesis by (simp add: dual_feasible_def)
  qed
  with mono show "alpha * r ! j \<le> lagrange r alpha (act' act)" by simp
qed

subsection \<open>The loop returns a stationary point\<close>

lemma active_set_loop_result:
  fixes r :: "real list" and alpha :: real
  assumes a: "alpha \<noteq> 1" and inv: "loop_inv n ws act"
  shows "\<exists>wsF k actF. active_set_loop r alpha iters ws act = Some (wsF, k) \<and>
           iters < k \<and> k \<le> iters + length act \<and> stationary r alpha n actF wsF \<and>
           (alpha < 1 \<longrightarrow> dual_feasible r alpha n act \<longrightarrow> dual_feasible r alpha n actF)"
  using inv
proof (induction "length act" arbitrary: ws act iters rule: less_induct)
  case less
  define p where "p = provisional r alpha (lagrange r alpha act)"
  from less.prems have ne: "act \<noteq> []" and d: "distinct act" and bnd: "\<forall>i\<in>set act. i < n"
    by (simp_all add: loop_inv_def)
  show ?case
  proof (cases "\<exists>i\<in>set act. p i < 0")
    case False
    then have nn: "\<forall>i\<in>set act. 0 \<le> provisional r alpha (lagrange r alpha act) i"
      by (simp add: p_def not_less)
    from loop_body_exit [OF less.prems a nn] obtain wsF
      where body: "loop_body r alpha ws act = Exit wsF" and len: "length wsF = n"
        and nth: "\<forall>j<n. wsF ! j =
              (if j \<in> set act then provisional r alpha (lagrange r alpha act) j else 0)"
      by blast
    have run: "active_set_loop r alpha iters ws act = Some (wsF, iters + 1)"
      by (subst active_set_loop.simps) (simp add: body)
    have st: "stationary r alpha n act wsF"
      using len ne d bnd nth nn by (simp add: stationary_def)
    have "0 < length act" using ne by simp
    then have "iters < iters + 1 \<and> iters + 1 \<le> iters + length act" by linarith
    with run st show ?thesis by (intro exI [of _ wsF] exI [of _ "iters + 1"] exI [of _ act]) simp
  next
    case True
    define act' where "act' = filter (\<lambda>i. 0 < provisional r alpha (lagrange r alpha act) i) act"
    from True have neg: "\<exists>i\<in>set act. provisional r alpha (lagrange r alpha act) i < 0"
      by (simp add: p_def)
    from loop_body_again [OF less.prems a neg] obtain ws'
      where body: "loop_body r alpha ws act = Again ws' act'"
        and inv': "loop_inv n ws' act'" and shorter: "length act' < length act"
      unfolding act'_def by blast
    from inv' have ne': "act' \<noteq> []" by (simp add: loop_inv_def)
    from less.hyps [OF shorter inv', of "iters + 1"] obtain wsF k actF
      where run': "active_set_loop r alpha (iters + 1) ws' act' = Some (wsF, k)"
        and k: "iters + 1 < k" "k \<le> iters + 1 + length act'"
        and st: "stationary r alpha n actF wsF"
        and df: "alpha < 1 \<longrightarrow> dual_feasible r alpha n act' \<longrightarrow> dual_feasible r alpha n actF"
      by blast
    have run: "active_set_loop r alpha iters ws act = Some (wsF, k)"
      using run' by (subst active_set_loop.simps) (simp add: body)
    have step: "alpha < 1 \<longrightarrow> dual_feasible r alpha n act \<longrightarrow> dual_feasible r alpha n act'"
      unfolding act'_def using dual_feasible_step [of alpha act r n] ne ne' [unfolded act'_def]
      by blast
    from k shorter have "iters < k" "k \<le> iters + length act" by simp_all
    with run st df step show ?thesis
      by (intro exI [of _ wsF] exI [of _ k] exI [of _ actF]) simp
  qed
qed

subsection \<open>The returned list and the two branches\<close>

lemma length_with_weights: "length (with_weights items f) = length items"
  by (simp add: with_weights_def)

lemma nth_with_weights:
  "i < length items \<Longrightarrow>
   with_weights items f ! i =
     \<lparr>sector = sector (items ! i), performance = performance (items ! i), weight = f i\<rparr>"
  by (simp add: with_weights_def)

lemma weights_of_with_weights:
  "length ws = length items \<Longrightarrow> map weight (with_weights items (\<lambda>i. ws ! i)) = ws"
  by (rule nth_equalityI) (simp_all add: length_with_weights nth_with_weights)

lemma find_max_first:
  assumes "maxIdx < i" and "i \<le> length items"
    and "maxPerf = performance (items ! maxIdx)"
    and "\<forall>j<i. performance (items ! j) \<le> maxPerf"
    and "\<forall>j<maxIdx. performance (items ! j) < maxPerf"
  shows "\<exists>m. find_max items i maxIdx maxPerf = Inr m \<and> m < length items \<and>
           (\<forall>j<length items. performance (items ! j) \<le> performance (items ! m)) \<and>
           (\<forall>j<m. performance (items ! j) < performance (items ! m))"
  using assms
proof (induction items i maxIdx maxPerf rule: find_max.induct)
  case (1 items i maxIdx maxPerf)
  show ?case
  proof (cases "i < length items")
    case False
    with "1.prems" have "i = length items" by simp
    with "1.prems" False show ?thesis
      by (subst find_max.simps) simp
  next
    case True
    then have at: "performance_at items i = Inr (performance (items ! i))"
      by (simp add: performance_at_def)
    show ?thesis
    proof (cases "performance (items ! i) > maxPerf")
      case gt: True
      have le: "\<forall>j<i + 1. performance (items ! j) \<le> performance (items ! i)"
      proof (intro allI impI)
        fix j assume "j < i + 1"
        then consider "j < i" | "j = i" by linarith
        then show "performance (items ! j) \<le> performance (items ! i)"
          using "1.prems"(4) gt by cases force+
      qed
      have lt: "\<forall>j<i. performance (items ! j) < performance (items ! i)"
        using "1.prems"(4) gt by force
      have "\<exists>m. find_max items (i + 1) i (performance (items ! i)) = Inr m \<and>
          m < length items \<and>
          (\<forall>j<length items. performance (items ! j) \<le> performance (items ! m)) \<and>
          (\<forall>j<m. performance (items ! j) < performance (items ! m))"
        using True gt le lt by (intro "1.IH"(1) [OF True at gt]) simp_all
      then show ?thesis
        using True at gt by (subst find_max.simps) simp
    next
      case ngt: False
      have le: "\<forall>j<i + 1. performance (items ! j) \<le> maxPerf"
      proof (intro allI impI)
        fix j assume "j < i + 1"
        then consider "j < i" | "j = i" by linarith
        then show "performance (items ! j) \<le> maxPerf"
          using "1.prems"(4) ngt by cases force+
      qed
      have "\<exists>m. find_max items (i + 1) maxIdx maxPerf = Inr m \<and>
          m < length items \<and>
          (\<forall>j<length items. performance (items ! j) \<le> performance (items ! m)) \<and>
          (\<forall>j<m. performance (items ! j) < performance (items ! m))"
        using True "1.prems" le by (intro "1.IH"(2) [OF True at ngt]) simp_all
      then show ?thesis
        using True at ngt by (subst find_max.simps) simp
    qed
  qed
qed

lemma portfolio_run_alpha_1:
  assumes "items \<noteq> []"
  shows "\<exists>m. portfolio_run items 1 =
             Some (Inr (with_weights items (\<lambda>i. if i = m then 1 else 0), 0)) \<and>
           m < length items \<and>
           (\<forall>j<length items. performance (items ! j) \<le> performance (items ! m)) \<and>
           (\<forall>j<m. performance (items ! j) < performance (items ! m))"
proof -
  from assms have pos: "0 < length items" by simp
  then have at: "performance_at items 0 = Inr (performance (items ! 0))"
    by (simp add: performance_at_def)
  have "\<exists>m. find_max items 1 0 (performance (items ! 0)) = Inr m \<and> m < length items \<and>
           (\<forall>j<length items. performance (items ! j) \<le> performance (items ! m)) \<and>
           (\<forall>j<m. performance (items ! j) < performance (items ! m))"
    using pos by (intro find_max_first) (simp_all add: Suc_le_eq)
  then obtain m where fm: "find_max items 1 0 (performance (items ! 0)) = Inr m"
    and m: "m < length items"
      "\<forall>j<length items. performance (items ! j) \<le> performance (items ! m)"
      "\<forall>j<m. performance (items ! j) < performance (items ! m)"
    by blast
  have "portfolio_run items 1 = Some (Inr (with_weights items (\<lambda>i. if i = m then 1 else 0), 0))"
    using assms at fm by (simp add: portfolio_run_def)
  with m show ?thesis by blast
qed

lemma initial_loop_inv: "0 < n \<Longrightarrow> loop_inv n (replicate n 0) [0..<n]"
  by (simp add: loop_inv_def)

lemma initial_dual_feasible: "dual_feasible r alpha n [0..<n]"
  by (simp add: dual_feasible_def)

lemma portfolio_run_general:
  assumes ne: "items \<noteq> []" and a: "alpha \<noteq> 1"
  defines "n \<equiv> length items" and "r \<equiv> map performance items"
  shows "\<exists>ws k act. portfolio_run items alpha = Some (Inr (with_weights items (\<lambda>i. ws ! i), k)) \<and>
           0 < k \<and> k \<le> n \<and> stationary r alpha n act ws \<and>
           (alpha < 1 \<longrightarrow> dual_feasible r alpha n act)"
proof -
  have pos: "0 < n" using ne by (simp add: n_def)
  from active_set_loop_result [OF a initial_loop_inv [OF pos], of r 0]
  obtain ws k act where
    run: "active_set_loop r alpha 0 (replicate n 0) [0..<n] = Some (ws, k)"
    and k: "0 < k" "k \<le> n" and st: "stationary r alpha n act ws"
    and df: "alpha < 1 \<longrightarrow> dual_feasible r alpha n [0..<n] \<longrightarrow> dual_feasible r alpha n act"
    by auto
  have "portfolio_run items alpha = Some (Inr (with_weights items (\<lambda>i. ws ! i), k))"
    using ne a run by (simp add: portfolio_run_def n_def r_def)
  with k st df initial_dual_feasible [of r alpha n] show ?thesis by blast
qed

subsection \<open>Degenerate inputs, the shape of the output, termination\<close>

lemma single_item_loop:
  assumes "alpha \<noteq> 1"
  shows "active_set_loop [p] alpha 0 [0] [0] = Some ([1], 1)"
proof -
  have w: "provisional [p] alpha (lagrange [p] alpha [0]) 0 = 1"
    using sum_provisional [OF assms, of "[0]" "[p]"] by simp
  have "loop_body [p] alpha [0] [0] = Exit [1]"
    by (simp add: loop_body_def assign_provisional_eq w normalize_def sumW_def)
  then show ?thesis
    by (subst active_set_loop.simps) simp
qed

text \<open>
  In exact arithmetic a list of one item gets the weight 1 whatever its expected return and
  whatever alpha. With rounding this needs alpha in [0, 1]: see the properties of the
  function in binary64 arithmetic below.
\<close>

theorem single_item_weight_one:
  "optimizePortfolio [x] alpha =
     Some (Inr [\<lparr>sector = sector x, performance = performance x, weight = 1\<rparr>])"
proof (cases "alpha = 1")
  case True
  have "find_max [x] 1 0 (performance x) = Inr 0"
    by (subst find_max.simps) simp
  with True show ?thesis
    by (simp add: optimizePortfolio_def portfolio_run_def performance_at_def with_weights_def)
next
  case False
  then show ?thesis
    by (simp add: optimizePortfolio_def portfolio_run_def single_item_loop with_weights_def)
qed

theorem single_item_weight_one_witness:
  "optimizePortfolio [\<lparr>sector = ''X'', performance = - 3\<rparr>] (1 / 2) =
     Some (Inr [\<lparr>sector = ''X'', performance = - 3, weight = 1\<rparr>])"
  using single_item_weight_one [of "\<lparr>sector = ''X'', performance = - 3\<rparr>" "1 / 2"]
  by simp

text \<open>
  Claim C6: for the empty list and every alpha the function returns the empty list; and for
  every list and every alpha it returns a list: it neither throws (\<open>Inl\<close>) nor fails to
  return (\<open>None\<close>).
\<close>

theorem empty_input_and_no_throw:
  "optimizePortfolio [] alpha = Some (Inr []) \<and>
   (\<exists>out. optimizePortfolio items alpha' = Some (Inr out))"
proof
  show "optimizePortfolio [] alpha = Some (Inr [])"
    by (simp add: optimizePortfolio_def portfolio_run_def)
  show "\<exists>out. optimizePortfolio items alpha' = Some (Inr out)"
  proof (cases "items = []")
    case True
    then show ?thesis by (simp add: optimizePortfolio_def portfolio_run_def)
  next
    case ne: False
    show ?thesis
    proof (cases "alpha' = 1")
      case True
      with portfolio_run_alpha_1 [OF ne] show ?thesis
        by (auto simp: optimizePortfolio_def)
    next
      case False
      with portfolio_run_general [OF ne False] show ?thesis
        by (auto simp: optimizePortfolio_def)
    qed
  qed
qed

theorem empty_input_and_no_throw_witness:
  "optimizePortfolio [] (1 / 2) = Some (Inr []) \<and>
   (\<exists>out. optimizePortfolio [\<lparr>sector = ''A'', performance = 1\<rparr>,
      \<lparr>sector = ''B'', performance = 2\<rparr>] 3 = Some (Inr out))"
  using empty_input_and_no_throw [of "1 / 2" "[\<lparr>sector = ''A'', performance = 1\<rparr>,
      \<lparr>sector = ''B'', performance = 2\<rparr>]" 3]
  by simp

lemma portfolio_run_returns:
  "\<exists>f k. portfolio_run items alpha = Some (Inr (with_weights items f, k)) \<and> k \<le> length items"
proof (cases "items = []")
  case True
  then show ?thesis by (simp add: portfolio_run_def with_weights_def)
next
  case ne: False
  show ?thesis
  proof (cases "alpha = 1")
    case True
    with portfolio_run_alpha_1 [OF ne] show ?thesis by auto
  next
    case False
    from portfolio_run_general [OF ne False] show ?thesis by blast
  qed
qed

text \<open>
  Claim C3: for every list and every alpha the output has the length of the input, and its
  i-th element carries the sector and the performance of the i-th input element. The input
  is a value of the embedding: the source only reads \<open>items\<close>, and nothing here can
  change it.
\<close>

theorem output_keeps_order_and_labels:
  "\<exists>out. optimizePortfolio items alpha = Some (Inr out) \<and>
         length out = length items \<and>
         (\<forall>i<length items.
            sector (out ! i) = sector (items ! i) \<and>
            performance (out ! i) = performance (items ! i))"
proof -
  from portfolio_run_returns [of items alpha] obtain f k
    where "portfolio_run items alpha = Some (Inr (with_weights items f, k))" by blast
  then have "optimizePortfolio items alpha = Some (Inr (with_weights items f))"
    by (simp add: optimizePortfolio_def)
  then show ?thesis
    by (simp add: length_with_weights nth_with_weights)
qed

theorem output_keeps_order_and_labels_witness:
  "\<exists>out. optimizePortfolio [\<lparr>sector = ''A'', performance = 1 / 20\<rparr>,
      \<lparr>sector = ''B'', performance = 1 / 5\<rparr>] (1 / 2) = Some (Inr out) \<and>
     length out = 2 \<and> sector (out ! 1) = ''B'' \<and> performance (out ! 1) = 1 / 5"
proof -
  let ?items = "[\<lparr>sector = ''A'', performance = 1 / 20\<rparr>,
      \<lparr>sector = ''B'', performance = 1 / 5\<rparr>]"
  from output_keeps_order_and_labels [of ?items "1 / 2"] obtain out where
    run: "optimizePortfolio ?items (1 / 2) = Some (Inr out)"
    and len: "length out = length ?items"
    and same: "\<forall>i<length ?items. sector (out ! i) = sector (?items ! i) \<and>
            performance (out ! i) = performance (?items ! i)"
    by blast
  from same [rule_format, of 1]
  have "sector (out ! 1) = ''B'' \<and> performance (out ! 1) = 1 / 5" by simp
  with run len show ?thesis by (intro exI [of _ out]) simp
qed

lemma loop_body_shrinks:
  assumes "loop_body r alpha ws act = Again ws' act'"
  shows "length act' < length act"
proof -
  define ws1 where "ws1 = fst (assign_provisional r alpha (lagrange r alpha act) act ws)"
  have "act' = filter (\<lambda>i. 0 < ws1 ! i) act \<and> length act' \<noteq> length act"
    using assms
    by (auto simp: loop_body_def Let_def remove_negative_eq ws1_def
        split: if_splits prod.splits)
  then have eq: "act' = filter (\<lambda>i. 0 < ws1 ! i) act" and ne: "length act' \<noteq> length act"
    by blast+
  have "length act' \<le> length act" by (simp add: eq)
  with ne show ?thesis by linarith
qed

text \<open>
  Claim C7: for every list of n items and every alpha the function returns, its loop has
  run at most n times, and an iteration that does not leave the loop makes the active list
  strictly shorter.
\<close>

theorem loop_at_most_n_iterations:
  "(\<exists>out k. portfolio_run items alpha = Some (Inr (out, k)) \<and> k \<le> length items) \<and>
   (loop_body r alpha' ws act = Again ws' act' \<longrightarrow> length act' < length act)"
  using portfolio_run_returns [of items alpha] loop_body_shrinks [of r alpha' ws act ws' act']
  by blast

theorem loop_at_most_n_iterations_witness:
  "(\<exists>out k. portfolio_run [\<lparr>sector = ''A'', performance = 1 / 2\<rparr>,
      \<lparr>sector = ''B'', performance = 0\<rparr>, \<lparr>sector = ''C'', performance = 7 / 4\<rparr>,
      \<lparr>sector = ''D'', performance = 7 / 4\<rparr>] (1 / 2) = Some (Inr (out, k)) \<and>
      k \<le> length [0, 1, 2, 3 :: nat]) \<and>
   loop_body [1 / 2, 0, 7 / 4, 7 / 4] (1 / 2) [0, 0, 0, 0] [0, 1, 2, 3] =
     Again [0, 0, 5 / 8, 5 / 8] [2, 3] \<and>
   length [2, 3 :: nat] < length [0, 1, 2, 3 :: nat]"
proof -
  have body: "loop_body [1 / 2, 0, 7 / 4, 7 / 4] (1 / 2) [0, 0, 0, 0] [0, 1, 2, 3] =
     Again [0, 0, 5 / 8, 5 / 8] [2, 3]"
    by (simp add: loop_body_def lagrange_def assign_provisional_def provisional_def
        remove_negative_def)
  show ?thesis
    using body loop_at_most_n_iterations [of "[\<lparr>sector = ''A'', performance = 1 / 2\<rparr>,
      \<lparr>sector = ''B'', performance = 0\<rparr>, \<lparr>sector = ''C'', performance = 7 / 4\<rparr>,
      \<lparr>sector = ''D'', performance = 7 / 4\<rparr>]" "1 / 2" "[1 / 2, 0, 7 / 4, 7 / 4]" "1 / 2"
      "[0, 0, 0, 0]" "[0, 1, 2, 3]" "[0, 0, 5 / 8, 5 / 8]" "[2, 3]"]
    by (simp del: One_nat_def)
qed

text \<open>
  Claim C4: for a non-empty list and alpha = 1, the item \<open>m\<close> of weight 1 has the greatest
  performance and is the first such item (every earlier item is strictly smaller); every
  other item has weight 0.
\<close>

theorem alpha_1_picks_first_maximum:
  assumes "items \<noteq> []"
  shows "\<exists>out m. optimizePortfolio items 1 = Some (Inr out) \<and> length out = length items \<and>
           m < length items \<and>
           (\<forall>j<length items. performance (items ! j) \<le> performance (items ! m)) \<and>
           (\<forall>j<m. performance (items ! j) < performance (items ! m)) \<and>
           (\<forall>i<length items. weight (out ! i) = (if i = m then 1 else 0))"
proof -
  from portfolio_run_alpha_1 [OF assms] obtain m where
    run: "portfolio_run items 1 =
      Some (Inr (with_weights items (\<lambda>i. if i = m then 1 else 0), 0))"
    and m: "m < length items"
      "\<forall>j<length items. performance (items ! j) \<le> performance (items ! m)"
      "\<forall>j<m. performance (items ! j) < performance (items ! m)"
    by blast
  let ?out = "with_weights items (\<lambda>i. if i = m then 1 else 0)"
  have "optimizePortfolio items 1 = Some (Inr ?out)"
    using run by (simp add: optimizePortfolio_def)
  moreover have "length ?out = length items" by (simp add: length_with_weights)
  moreover have "\<forall>i<length items. weight (?out ! i) = (if i = m then 1 else 0)"
    by (simp add: nth_with_weights)
  ultimately show ?thesis using m by blast
qed

theorem alpha_1_picks_first_maximum_witness:
  "\<exists>out. optimizePortfolio [\<lparr>sector = ''A'', performance = 1 / 20\<rparr>,
      \<lparr>sector = ''B'', performance = 1 / 5\<rparr>, \<lparr>sector = ''C'', performance = 1 / 5\<rparr>] 1 =
       Some (Inr out) \<and> map weight out = [0, 1, 0]"
proof -
  let ?items = "[\<lparr>sector = ''A'', performance = 1 / 20\<rparr>,
      \<lparr>sector = ''B'', performance = 1 / 5\<rparr>, \<lparr>sector = ''C'', performance = 1 / 5\<rparr>]"
  have "?items \<noteq> []" by simp
  from alpha_1_picks_first_maximum [OF this] obtain out m where
    run: "optimizePortfolio ?items 1 = Some (Inr out)"
    and len: "length out = length ?items" and m: "m < length ?items"
    and le: "\<forall>j<length ?items. performance (?items ! j) \<le> performance (?items ! m)"
    and lt: "\<forall>j<m. performance (?items ! j) < performance (?items ! m)"
    and w: "\<forall>i<length ?items. weight (out ! i) = (if i = m then 1 else 0)"
    by blast
  from m have "m < 3" by simp
  then consider "m = 0" | "m = 1" | "m = 2" by linarith
  then have m1: "m = 1"
  proof cases
    case 1
    with le [rule_format, of 1] show ?thesis by simp
  next
    case 2
    then show ?thesis .
  next
    case 3
    with lt [rule_format, of 1] show ?thesis by simp
  qed
  have w0: "weight (out ! 0) = 0" and w1: "weight (out ! 1) = 1" and w2: "weight (out ! 2) = 0"
    using w [rule_format, of 0] w [rule_format, of 1] w [rule_format, of 2] m1 by simp_all
  from len obtain a b c where out: "out = [a, b, c]"
    by (auto simp: length_Suc_conv numeral_3_eq_3)
  have "map weight out = [0, 1, 0]"
    using w0 w1 w2 by (simp add: out)
  with run show ?thesis by (intro exI [of _ out] conjI)
qed

subsection \<open>What the loop leaves in the weights\<close>

lemma map_weight_with_weights:
  "map weight (with_weights items f) = map f [0..<length items]"
  by (rule nth_equalityI) (simp_all add: length_with_weights nth_with_weights)

lemma sum_list_nth: "sum_list ws = (\<Sum>j<length ws. ws ! j)" for ws :: "real list"
  by (simp add: sum_list_sum_nth atLeast0LessThan)

lemma stationary_sum:
  assumes st: "stationary r alpha n act ws" and a: "alpha \<noteq> 1"
  shows "sum_list ws = 1"
proof -
  define p where "p = provisional r alpha (lagrange r alpha act)"
  from st have len: "length ws = n" and ne: "act \<noteq> []" and d: "distinct act"
    and bnd: "\<forall>i\<in>set act. i < n"
    and nth: "\<forall>j<n. ws ! j = (if j \<in> set act then p j else 0)"
    by (simp_all add: stationary_def p_def)
  have sub: "set act \<subseteq> {..<n}" using bnd by auto
  have "sum_list ws = (\<Sum>j<n. if j \<in> set act then p j else 0)"
    using nth by (simp add: sum_list_nth len)
  also have "\<dots> = (\<Sum>j\<in>set act. if j \<in> set act then p j else 0)"
    by (rule sum.mono_neutral_right) (use sub in auto)
  also have "\<dots> = (\<Sum>j\<in>set act. p j)" by simp
  also have "\<dots> = sum_list (map p act)"
    by (simp add: sum_list_distinct_conv_sum_set [OF d])
  also have "\<dots> = 1" unfolding p_def by (rule sum_provisional [OF a ne])
  finally show ?thesis .
qed

lemma stationary_nonneg:
  assumes "stationary r alpha n act ws" and "j < n"
  shows "0 \<le> ws ! j"
  using assms by (simp add: stationary_def)

lemma stationary_feasible:
  assumes "stationary r alpha n act ws" and "alpha \<noteq> 1"
  shows "feasible n ws"
proof -
  have "length ws = n" using assms(1) by (simp add: stationary_def)
  moreover from this have "list_all (\<lambda>x. 0 \<le> x) ws"
    using stationary_nonneg [OF assms(1)] by (simp add: list_all_length)
  ultimately show ?thesis
    using stationary_sum [OF assms] by (simp add: feasible_def)
qed

lemma indicator_feasible:
  assumes "m < n"
  shows "feasible n (map (\<lambda>i. if i = m then 1 else 0) [0..<n])"
proof -
  have "sum_list (map (\<lambda>i. if i = m then 1 else 0) [0..<n]) =
      (\<Sum>i\<in>{0..<n}. if i = m then 1 else (0::real))"
    by (simp add: sum_list_distinct_conv_sum_set)
  also have "\<dots> = 1" using assms by simp
  finally have "sum_list (map (\<lambda>i. if i = m then 1 else 0) [0..<n]) = (1::real)" .
  moreover have "list_all (\<lambda>x. 0 \<le> x) (map (\<lambda>i. if i = m then 1 else (0::real)) [0..<n])"
    by (simp add: list_all_length)
  ultimately show ?thesis by (simp add: feasible_def)
qed

text \<open>
  In exact arithmetic, for a list of n \<ge> 1 items and alpha in [0, 1], every output weight
  is non-negative and the output weights sum to 1. The rounded computation does not keep
  this: see the properties of the function in binary64 arithmetic below.
\<close>

theorem weights_nonnegative_sum_one:
  assumes "items \<noteq> []" and "0 \<le> alpha" and "alpha \<le> 1"
  shows "\<exists>out. optimizePortfolio items alpha = Some (Inr out) \<and>
           list_all (\<lambda>x. 0 \<le> weight x) out \<and> sum_list (map weight out) = 1"
proof -
  have "\<exists>out. optimizePortfolio items alpha = Some (Inr out) \<and>
      feasible (length items) (map weight out)"
  proof (cases "alpha = 1")
    case True
    from portfolio_run_alpha_1 [OF assms(1)] obtain m where
      run: "portfolio_run items 1 =
        Some (Inr (with_weights items (\<lambda>i. if i = m then 1 else 0), 0))"
      and m: "m < length items"
      by blast
    from run True have "optimizePortfolio items alpha =
        Some (Inr (with_weights items (\<lambda>i. if i = m then 1 else 0)))"
      by (simp add: optimizePortfolio_def)
    then show ?thesis
      using indicator_feasible [OF m] by (simp add: map_weight_with_weights)
  next
    case False
    from portfolio_run_general [OF assms(1) False] obtain ws k act where
      run: "portfolio_run items alpha = Some (Inr (with_weights items (\<lambda>i. ws ! i), k))"
      and st: "stationary (map performance items) alpha (length items) act ws"
      by blast
    have len: "length ws = length items" using st by (simp add: stationary_def)
    from run have "optimizePortfolio items alpha =
        Some (Inr (with_weights items (\<lambda>i. ws ! i)))"
      by (simp add: optimizePortfolio_def)
    then show ?thesis
      using stationary_feasible [OF st False] by (simp add: weights_of_with_weights [OF len])
  qed
  then show ?thesis
    by (auto simp: feasible_def list_all_iff)
qed

theorem weights_nonnegative_sum_one_witness:
  "\<exists>out. optimizePortfolio [\<lparr>sector = ''A'', performance = - 1\<rparr>,
      \<lparr>sector = ''B'', performance = 3\<rparr>] (1 / 2) = Some (Inr out) \<and>
     list_all (\<lambda>x. 0 \<le> weight x) out \<and> sum_list (map weight out) = 1"
  by (rule weights_nonnegative_sum_one) simp_all

subsection \<open>Optimality of a stationary point\<close>






subsection \<open>The states the loop goes through\<close>

lemma loop_state_follows_loop:
  "loop_state r alpha k ws act = Some (ws', act') \<Longrightarrow>
   active_set_loop r alpha iters ws act = active_set_loop r alpha (iters + k) ws' act'"
proof (induction k arbitrary: ws act iters)
  case 0
  then show ?case by simp
next
  case (Suc k)
  then obtain ws1 act1 where body: "loop_body r alpha ws act = Again ws1 act1"
    and rest: "loop_state r alpha k ws1 act1 = Some (ws', act')"
    by (auto split: loop_step.splits)
  have "active_set_loop r alpha iters ws act = active_set_loop r alpha (iters + 1) ws1 act1"
    by (subst active_set_loop.simps) (simp add: body)
  also have "\<dots> = active_set_loop r alpha (iters + 1 + k) ws' act'"
    by (rule Suc.IH [OF rest])
  finally show ?case by simp
qed

lemma loop_state_inv:
  assumes "alpha \<noteq> 1"
  shows "loop_inv n ws act \<Longrightarrow> loop_state r alpha k ws act = Some (ws', act') \<Longrightarrow>
    loop_inv n ws' act'"
proof (induction k arbitrary: ws act)
  case 0
  then show ?case by simp
next
  case (Suc k)
  then obtain ws1 act1 where body: "loop_body r alpha ws act = Again ws1 act1"
    and rest: "loop_state r alpha k ws1 act1 = Some (ws', act')"
    by (auto split: loop_step.splits)
  have "loop_inv n ws1 act1"
  proof (cases "\<exists>i\<in>set act. provisional r alpha (lagrange r alpha act) i < 0")
    case True
    from loop_body_again(1) [OF Suc.prems(1) assms True] body show ?thesis by auto
  next
    case False
    then have "\<forall>i\<in>set act. 0 \<le> provisional r alpha (lagrange r alpha act) i"
      by (simp add: not_less)
    from loop_body_exit [OF Suc.prems(1) assms this] body show ?thesis by auto
  qed
  then show ?case using rest by (rule Suc.IH)
qed

text \<open>
  Claim C10: for a list of n \<ge> 1 items and 0 \<le> alpha < 1, at the head of every iteration
  the loop reaches the active list is not empty, the provisional weights stored for it sum
  to exactly 1, and so the uniform fallback is not executed.
\<close>

theorem provisional_weights_sum_to_one:
  assumes "items \<noteq> []" and "0 \<le> alpha" and "alpha < 1"
    and "loop_state (map performance items) alpha k
           (replicate (length items) 0) [0..<length items] = Some (ws, act)"
  shows "act \<noteq> [] \<and>
         sumW act (fst (assign_provisional (map performance items) alpha
           (lagrange (map performance items) alpha act) act ws)) = 1 \<and>
         \<not> takes_fallback (map performance items) alpha ws act"
proof -
  define r where "r = map performance items"
  define ws1 where "ws1 = fst (assign_provisional r alpha (lagrange r alpha act) act ws)"
  from assms(3) have a: "alpha \<noteq> 1" by simp
  have "loop_inv (length items) (replicate (length items) 0) [0..<length items]"
    using assms(1) by (intro initial_loop_inv) simp
  then have inv: "loop_inv (length items) ws act"
    using assms(4) unfolding r_def [symmetric] by (rule loop_state_inv [OF a])
  then have ne: "act \<noteq> []" by (simp add: loop_inv_def)
  have stored: "map ((!) ws1) act = map (provisional r alpha (lagrange r alpha act)) act"
    unfolding ws1_def by (rule stored_weights(3) [OF inv])
  have "sumW act ws1 = sum_list (map ((!) ws1) act)"
    by (simp add: sumW_def foldl_add_sum_list)
  also have "\<dots> = sum_list (map (provisional r alpha (lagrange r alpha act)) act)"
    by (simp only: stored)
  also have "\<dots> = 1" by (rule sum_provisional [OF a ne])
  finally have s: "sumW act ws1 = 1" .
  from s have "\<not> takes_fallback r alpha ws act"
    by (auto simp: takes_fallback_def ws1_def split: prod.splits)
  with ne s show ?thesis by (simp add: r_def ws1_def)
qed

theorem provisional_weights_sum_to_one_witness:
  "[2, 3 :: nat] \<noteq> [] \<and>
   sumW [2, 3] (fst (assign_provisional [1 / 2, 0, 7 / 4, 7 / 4] (1 / 2)
     (lagrange [1 / 2, 0, 7 / 4, 7 / 4] (1 / 2) [2, 3]) [2, 3] [0, 0, 5 / 8, 5 / 8])) = 1 \<and>
   \<not> takes_fallback [1 / 2, 0, 7 / 4, 7 / 4] (1 / 2) [0, 0, 5 / 8, 5 / 8] [2, 3]"
proof -
  let ?items = "[\<lparr>sector = ''A'', performance = 1 / 2\<rparr>,
      \<lparr>sector = ''B'', performance = 0\<rparr>, \<lparr>sector = ''C'', performance = 7 / 4\<rparr>,
      \<lparr>sector = ''D'', performance = 7 / 4\<rparr>]"
  have body: "loop_body [1 / 2, 0, 7 / 4, 7 / 4] (1 / 2) [0, 0, 0, 0] [0, 1, 2, 3] =
     Again [0, 0, 5 / 8, 5 / 8] [2, 3]"
    by (simp add: loop_body_def lagrange_def assign_provisional_def provisional_def
        remove_negative_def)
  have init: "replicate (length ?items) (0::real) = [0, 0, 0, 0]"
    and idx: "[0..<length ?items] = [0, 1, 2, 3]"
    by (simp_all add: upt_rec)
  have "loop_state (map performance ?items) (1 / 2) (Suc 0)
      (replicate (length ?items) 0) [0..<length ?items] = Some ([0, 0, 5 / 8, 5 / 8], [2, 3])"
    unfolding init idx using body by simp
  from provisional_weights_sum_to_one [OF _ _ _ this] show ?thesis by simp
qed

subsection \<open>What an iteration removes\<close>

text \<open>
  The test \<open>weights[i] > 0\<close> of the second loop over the active list: in an iteration
  where some provisional weight is negative, the loop continues with exactly the indices
  whose provisional weight is positive, in their order; every other active index, of
  negative weight or of weight exactly 0, leaves the active list with weight 0.
\<close>

theorem nonpositive_weights_are_removed:
  assumes bnd: "\<forall>i\<in>set act. i < length ws"
    and neg: "\<exists>i\<in>set act. provisional r alpha (lagrange r alpha act) i < 0"
  shows "\<exists>ws'. loop_body r alpha ws act =
             Again ws' (filter (\<lambda>i. 0 < provisional r alpha (lagrange r alpha act) i) act) \<and>
           (\<forall>i\<in>set act. ws' ! i =
              (if 0 < provisional r alpha (lagrange r alpha act) i
               then provisional r alpha (lagrange r alpha act) i else 0))"
proof -
  define p where "p = provisional r alpha (lagrange r alpha act)"
  define ws1 where "ws1 = foldl (\<lambda>ws i. ws[i := p i]) ws act"
  define ws2 where "ws2 = foldl (\<lambda>ws i. if ws ! i > 0 then ws else ws[i := 0]) ws1 act"
  from neg have ne: "act \<noteq> []" by auto
  have ap: "assign_provisional r alpha (lagrange r alpha act) act ws = (ws1, True)"
    using neg by (simp add: assign_provisional_eq ws1_def p_def)
  have len1: "length ws1 = length ws" by (simp add: ws1_def foldl_store_length)
  have nth1: "ws1 ! i = p i" if "i \<in> set act" for i
    using that bnd by (simp add: ws1_def foldl_store_nth)
  have flt: "filter (\<lambda>i. 0 < ws1 ! i) act = filter (\<lambda>i. 0 < p i) act"
    by (rule filter_cong [OF refl]) (simp add: nth1)
  have rn: "remove_negative act ws1 = (filter (\<lambda>i. 0 < p i) act, ws2)"
    by (simp add: remove_negative_eq flt ws2_def)
  have shorter: "length (filter (\<lambda>i. 0 < p i) act) < length act"
    using neg unfolding p_def by (auto intro!: length_filter_less)
  have body: "loop_body r alpha ws act = Again ws2 (filter (\<lambda>i. 0 < p i) act)"
    using ne ap rn shorter by (simp add: loop_body_def)
  have "\<forall>i\<in>set act. ws2 ! i = (if 0 < p i then p i else 0)"
    using bnd by (simp add: ws2_def foldl_reset_nth len1 nth1)
  with body show ?thesis unfolding p_def by blast
qed

theorem nonpositive_weights_are_removed_witness:
  "\<exists>ws'. loop_body [1 / 2, 0, 7 / 4, 7 / 4] (1 / 2) [0, 0, 0, 0] [0, 1, 2, 3] =
      Again ws' (filter (\<lambda>i. 0 < provisional [1 / 2, 0, 7 / 4, 7 / 4] (1 / 2)
        (lagrange [1 / 2, 0, 7 / 4, 7 / 4] (1 / 2) [0, 1, 2, 3]) i) [0, 1, 2, 3]) \<and>
     ws' ! 0 = 0 \<and> ws' ! 1 = 0 \<and> ws' ! 2 = 5 / 8"
proof -
  let ?r = "[1 / 2, 0, 7 / 4, 7 / 4] :: real list"
  let ?p = "provisional ?r (1 / 2) (lagrange ?r (1 / 2) [0, 1, 2, 3])"
  have p: "?p 0 = 0" "?p 1 = - (1 / 4)" "?p 2 = 5 / 8"
    by (simp_all add: provisional_def lagrange_def)
  have bnd: "\<forall>i\<in>set [0, 1, 2, 3 :: nat]. i < length [0, 0, 0, 0 :: real]" by simp
  have neg: "\<exists>i\<in>set [0, 1, 2, 3]. ?p i < 0" using p by simp
  from nonpositive_weights_are_removed [OF bnd neg] obtain ws' where
    body: "loop_body ?r (1 / 2) [0, 0, 0, 0] [0, 1, 2, 3] =
      Again ws' (filter (\<lambda>i. 0 < ?p i) [0, 1, 2, 3])"
    and w: "\<forall>i\<in>set [0, 1, 2, 3]. ws' ! i = (if 0 < ?p i then ?p i else 0)"
    by blast
  have "ws' ! 0 = 0 \<and> ws' ! 1 = 0 \<and> ws' ! 2 = 5 / 8"
    using w [rule_format, of 0] w [rule_format, of 1] w [rule_format, of 2]
    by (simp add: p del: One_nat_def)
  with body show ?thesis by (intro exI [of _ ws']) simp
qed

text \<open>
  An index of weight exactly 0 is removed: with performances 1/2, 0, 7/4, 7/4 and
  alpha = 1/2 the first iteration computes the weight 0 for index 0 and a negative weight
  for index 1, and the next active list is [2, 3]: index 0 has left it. In exact arithmetic
  the returned weights are the same as if it had stayed; with rounding they are not: see
  the properties of the function in binary64 arithmetic below.
\<close>

theorem zero_weight_index_is_removed:
  "provisional [1 / 2, 0, 7 / 4, 7 / 4] (1 / 2)
     (lagrange [1 / 2, 0, 7 / 4, 7 / 4] (1 / 2) [0, 1, 2, 3]) 0 = 0 \<and>
   provisional [1 / 2, 0, 7 / 4, 7 / 4] (1 / 2)
     (lagrange [1 / 2, 0, 7 / 4, 7 / 4] (1 / 2) [0, 1, 2, 3]) 1 < 0 \<and>
   loop_body [1 / 2, 0, 7 / 4, 7 / 4] (1 / 2) [0, 0, 0, 0] [0, 1, 2, 3] =
     Again [0, 0, 5 / 8, 5 / 8] [2, 3] \<and>
   0 \<notin> set [2, 3 :: nat]"
  by (simp add: loop_body_def lagrange_def assign_provisional_def provisional_def
      remove_negative_def)

subsection \<open>Monotonicity in alpha\<close>









section \<open>Properties of the function in binary64 arithmetic\<close>

subsection \<open>Rounding\<close>

text \<open>
  Facts about \<open>rnd\<close>: it is monotone, it leaves a binary64 number unchanged and its
  error is at most half the spacing. Two of them evaluate a rounding: a real \<open>m * 2^k\<close>
  with \<open>|m| < 2^53\<close> and \<open>-1074 \<le> k \<le> 971\<close> is a binary64 number (\<open>rnd_exact\<close>), and
  a real of exponent \<open>e\<close> rounds to the multiple of \<open>2^(e - 52)\<close> that \<open>round_even\<close>
  selects (\<open>rnd_eval\<close>). The hypothesis \<open>rnd x = Fin x\<close> says that the real \<open>x\<close> is a
  finite binary64 number.
\<close>

lemma expo_bounds:
  assumes "x \<noteq> 0"
  shows "power_int 2 (expo x) \<le> \<bar>x\<bar>" and "\<bar>x\<bar> < power_int 2 (expo x + 1)"
proof -
  have "power_int 2 (expo x) \<le> \<bar>x\<bar> \<and> \<bar>x\<bar> < power_int 2 (expo x + 1)"
  proof (cases "1 \<le> \<bar>x\<bar>")
    case True
    define n where "n = \<lfloor>\<bar>x\<bar>\<rfloor>"
    have n: "0 < n" using True by (simp add: n_def)
    define b where "b = bitlen n"
    have b1: "1 \<le> b" using n by (simp add: b_def bitlen_alt_def)
    have e: "expo x = b - 1" using True by (simp add: expo_def n_def b_def)
    from bitlen_bounds [OF n] have lo: "2 ^ nat (b - 1) \<le> n" and hi: "n < 2 ^ nat b"
      by (simp_all add: b_def)
    have "real_of_int (2 ^ nat (b - 1)) \<le> real_of_int n" using lo by (simp only: of_int_le_iff)
    also have "\<dots> \<le> \<bar>x\<bar>" by (simp add: n_def)
    finally have 1: "power_int 2 (b - 1) \<le> \<bar>x\<bar>"
      using b1 by (simp add: power_int_def)
    from hi have "n + 1 \<le> 2 ^ nat b" by simp
    then have "real_of_int (n + 1) \<le> real_of_int (2 ^ nat b)" by (simp only: of_int_le_iff)
    moreover have "\<bar>x\<bar> < real_of_int (n + 1)" by (simp add: n_def)
    ultimately have 2: "\<bar>x\<bar> < power_int 2 b"
      using b1 by (simp add: power_int_def)
    from 1 2 show ?thesis by (simp add: e)
  next
    case False
    define y where "y = 1 / \<bar>x\<bar>"
    have x: "0 < \<bar>x\<bar>" "\<bar>x\<bar> < 1" using assms False by simp_all
    have y1: "1 < y" using x by (simp add: y_def)
    define k where "k = \<lceil>y\<rceil> - 1"
    have k: "0 < k" using y1 by (simp add: k_def less_ceiling_iff)
    have ky: "real_of_int k < y" "y \<le> real_of_int k + 1"
      by (simp_all add: k_def) linarith+
    define b where "b = bitlen k"
    have b1: "1 \<le> b" using k by (simp add: b_def bitlen_alt_def)
    have e: "expo x = - b" using False by (simp add: expo_def y_def k_def b_def)
    from bitlen_bounds [OF k] have lo: "2 ^ nat (b - 1) \<le> k" and hi: "k < 2 ^ nat b"
      by (simp_all add: b_def)
    from hi have "k + 1 \<le> 2 ^ nat b" by simp
    then have "real_of_int (k + 1) \<le> real_of_int (2 ^ nat b)" by (simp only: of_int_le_iff)
    with ky(2) have yhi: "y \<le> 2 ^ nat b" by simp
    have "real_of_int (2 ^ nat (b - 1)) \<le> real_of_int k" using lo by (simp only: of_int_le_iff)
    then have "(2::real) ^ nat (b - 1) \<le> real_of_int k" by simp
    with ky(1) have ylo: "2 ^ nat (b - 1) < y" by linarith
    have xy: "\<bar>x\<bar> = 1 / y" using x by (simp add: y_def)
    have "1 / 2 ^ nat b \<le> 1 / y"
      using yhi y1 by (intro divide_left_mono) simp_all
    then have 1: "power_int 2 (- b) \<le> \<bar>x\<bar>"
      using b1 by (simp add: xy power_int_def field_simps)
    have "0 < y" using y1 by simp
    then have "1 / y < 1 / 2 ^ nat (b - 1)"
      using ylo by (intro divide_strict_left_mono) simp_all
    moreover have "power_int 2 (- b + 1) = (1::real) / 2 ^ nat (b - 1)"
    proof (cases "b = 1")
      case True
      then show ?thesis by simp
    next
      case False
      with b1 have "- b + 1 < 0" and "nat (b - 1) = nat (- (- b + 1))" by simp_all
      then show ?thesis by (simp add: power_int_def field_simps)
    qed
    ultimately have 2: "\<bar>x\<bar> < power_int 2 (- b + 1)" by (simp add: xy)
    from 1 2 show ?thesis by (simp add: e)
  qed
  then show "power_int 2 (expo x) \<le> \<bar>x\<bar>" and "\<bar>x\<bar> < power_int 2 (expo x + 1)"
    by simp_all
qed

lemma expo_unique:
  assumes "power_int 2 e \<le> \<bar>x\<bar>" and "\<bar>x\<bar> < power_int 2 (e + 1)"
  shows "expo x = e"
proof -
  have pos: "0 < (power_int 2 e :: real)" by (simp add: power_int_def)
  with assms(1) have "0 < \<bar>x\<bar>" by linarith
  then have x: "x \<noteq> 0" by simp
  note b = expo_bounds [OF x]
  have lt1: "power_int (2::real) e < power_int 2 (expo x + 1)" using assms(1) b(2) by simp
  have 1: "e < expo x + 1"
  proof (rule ccontr)
    assume "\<not> e < expo x + 1"
    then have "power_int (2::real) (expo x + 1) \<le> power_int 2 e"
      by (intro power_int_increasing) simp_all
    with lt1 show False by simp
  qed
  have lt2: "power_int (2::real) (expo x) < power_int 2 (e + 1)" using assms(2) b(1) by simp
  have 2: "expo x < e + 1"
  proof (rule ccontr)
    assume "\<not> expo x < e + 1"
    then have "power_int (2::real) (e + 1) \<le> power_int 2 (expo x)"
      by (intro power_int_increasing) simp_all
    with lt2 show False by simp
  qed
  from 1 2 show ?thesis by simp
qed

lemma expo_minus [simp]: "expo (- x) = expo x"
  by (simp add: expo_def)

lemma grid_minus [simp]: "grid (- x) = grid x"
  by (simp add: grid_def)

lemma grid_pos [simp]: "0 < grid x"
  by (simp add: grid_def power_int_def)

lemma grid_neq0 [simp]: "grid x \<noteq> 0"
  by (simp add: grid_def power_int_def)

lemma round_even_error: "\<bar>real_of_int (round_even z) - z\<bar> \<le> 1 / 2"
  unfolding round_even_def Let_def by (auto simp: abs_le_iff)

lemma round_even_of_int [simp]: "round_even (of_int k) = k"
  by (simp add: round_even_def)

lemma round_even_range: "\<lfloor>z\<rfloor> \<le> round_even z" "round_even z \<le> \<lfloor>z\<rfloor> + 1"
  by (simp_all add: round_even_def Let_def)

lemma round_even_mono:
  assumes "z \<le> z'"
  shows "round_even z \<le> round_even z'"
proof (cases "\<lfloor>z\<rfloor> = \<lfloor>z'\<rfloor>")
  case True
  with assms show ?thesis by (auto simp: round_even_def Let_def)
next
  case False
  with assms have "\<lfloor>z\<rfloor> + 1 \<le> \<lfloor>z'\<rfloor>" using floor_mono [OF assms] by linarith
  with round_even_range(2) [of z] round_even_range(1) [of z'] show ?thesis by linarith
qed

lemma round_even_minus: "round_even (- z) = - round_even z"
proof (cases "z = of_int \<lfloor>z\<rfloor>")
  case True
  have "round_even (- real_of_int \<lfloor>z\<rfloor>) = - round_even (real_of_int \<lfloor>z\<rfloor>)"
    by (simp only: of_int_minus [symmetric] round_even_of_int)
  then show ?thesis by (simp only: True [symmetric])
next
  case False
  have le: "real_of_int \<lfloor>z\<rfloor> \<le> z" by (rule of_int_floor_le)
  with False have lo: "real_of_int \<lfloor>z\<rfloor> < z" by linarith
  have hi: "z < real_of_int \<lfloor>z\<rfloor> + 1" by simp
  have a: "real_of_int (- \<lfloor>z\<rfloor> - 1) \<le> - z"
    using hi unfolding of_int_diff of_int_minus of_int_1 by linarith
  have b: "- z < real_of_int (- \<lfloor>z\<rfloor> - 1) + 1"
    using lo unfolding of_int_diff of_int_minus of_int_1 by linarith
  have fl: "\<lfloor>- z\<rfloor> = - \<lfloor>z\<rfloor> - 1"
    using a b by (rule floor_unique)
  show ?thesis
    unfolding round_even_def Let_def fl by (auto simp: algebra_simps)
qed

lemma round_even_0 [simp]: "round_even 0 = 0"
  by (simp add: round_even_def)

lemma nearest_minus: "nearest (- x) = - nearest x"
  by (simp add: nearest_def round_even_minus)

lemma nearest_0 [simp]: "nearest 0 = 0"
  by (simp add: nearest_def)

lemma nearest_nonneg:
  assumes "0 \<le> x"
  shows "0 \<le> nearest x"
proof -
  have "0 \<le> x / grid x"
    using assms less_imp_le [OF grid_pos [of x]] by (rule divide_nonneg_nonneg)
  then have "round_even 0 \<le> round_even (x / grid x)"
    by (rule round_even_mono)
  then have "0 \<le> real_of_int (round_even (x / grid x))" by simp
  then show ?thesis
    unfolding nearest_def using less_imp_le [OF grid_pos [of x]] by (rule mult_nonneg_nonneg)
qed

lemma nearest_between:
  assumes q: "grid x = power_int 2 (e - 52)"
    and lo: "power_int 2 a \<le> x" and hi: "x \<le> power_int 2 b"
    and a: "e - 52 \<le> a" and b: "e - 52 \<le> b"
  shows "power_int 2 a \<le> nearest x" and "nearest x \<le> power_int 2 b"
proof -
  define q :: real where "q = power_int 2 (e - 52)"
  have qpos: "0 < q" by (simp add: q_def power_int_def)
  have pa: "power_int (2::real) a = of_int (2 ^ nat (a - (e - 52))) * q"
    using power_int_add [of "2::real" "a - (e - 52)" "e - 52"] a
    by (simp add: q_def power_int_def)
  have pb: "power_int (2::real) b = of_int (2 ^ nat (b - (e - 52))) * q"
    using power_int_add [of "2::real" "b - (e - 52)" "e - 52"] b
    by (simp add: q_def power_int_def)
  have "of_int (2 ^ nat (a - (e - 52))) \<le> x / q"
    using lo qpos unfolding pa by (simp add: field_simps)
  then have "round_even (of_int (2 ^ nat (a - (e - 52)))) \<le> round_even (x / q)"
    by (rule round_even_mono)
  then have "real_of_int (2 ^ nat (a - (e - 52))) \<le> real_of_int (round_even (x / q))"
    by (simp only: round_even_of_int of_int_le_iff)
  then have "real_of_int (2 ^ nat (a - (e - 52))) * q \<le> real_of_int (round_even (x / q)) * q"
    using qpos by (intro mult_right_mono) simp_all
  then show "power_int 2 a \<le> nearest x"
    unfolding pa by (simp add: nearest_def assms(1) q_def)
  have "x / q \<le> of_int (2 ^ nat (b - (e - 52)))"
    using hi qpos unfolding pb by (simp add: field_simps)
  then have "round_even (x / q) \<le> round_even (of_int (2 ^ nat (b - (e - 52))))"
    by (rule round_even_mono)
  then have "real_of_int (round_even (x / q)) \<le> real_of_int (2 ^ nat (b - (e - 52)))"
    by (simp only: round_even_of_int of_int_le_iff)
  then have "real_of_int (round_even (x / q)) * q \<le> real_of_int (2 ^ nat (b - (e - 52))) * q"
    using qpos by (intro mult_right_mono) simp_all
  then show "nearest x \<le> power_int 2 b"
    unfolding pb by (simp add: nearest_def assms(1) q_def)
qed

lemma nearest_normal:
  assumes "0 < x" and "- 1022 \<le> expo x"
  shows "power_int 2 (expo x) \<le> nearest x" and "nearest x \<le> power_int 2 (expo x + 1)"
proof -
  from assms have x: "x \<noteq> 0" "\<bar>x\<bar> = x" by simp_all
  have q: "grid x = power_int 2 (expo x - 52)" using assms(2) by (simp add: grid_def max_def)
  have lo: "power_int 2 (expo x) \<le> x" using expo_bounds(1) [OF x(1)] x(2) by simp
  have hi: "x \<le> power_int 2 (expo x + 1)" using expo_bounds(2) [OF x(1)] x(2) by simp
  show "power_int 2 (expo x) \<le> nearest x"
    by (rule nearest_between(1) [OF q lo hi]) simp_all
  show "nearest x \<le> power_int 2 (expo x + 1)"
    by (rule nearest_between(2) [OF q lo hi]) simp_all
qed

lemma nearest_subnormal:
  assumes "0 < x" and "expo x < - 1022"
  shows "nearest x \<le> power_int 2 (- 1022)"
proof -
  from assms have x: "x \<noteq> 0" "\<bar>x\<bar> = x" by simp_all
  have q: "grid x = power_int 2 (- 1022 - 52)" using assms(2) by (simp add: grid_def max_def)
  have "x < power_int 2 (expo x + 1)" using expo_bounds(2) [OF x(1)] x(2) by simp
  also have "\<dots> \<le> power_int 2 (- 1022)"
    using assms(2) by (intro power_int_increasing) simp_all
  finally have hi: "x \<le> power_int 2 (- 1022)" by simp
  define q :: real where "q = power_int 2 (- 1022 - 52)"
  have qpos: "0 < q" by (simp add: q_def power_int_def)
  have pb: "power_int (2::real) (- 1022) = of_int (2 ^ 52) * q"
    using power_int_add [of "2::real" 52 "- 1022 - 52"] by (simp add: q_def)
  have "x / q \<le> of_int (2 ^ 52)"
    using hi qpos unfolding pb by (simp add: field_simps)
  then have "round_even (x / q) \<le> round_even (of_int (2 ^ 52))"
    by (rule round_even_mono)
  then have "real_of_int (round_even (x / q)) \<le> real_of_int (2 ^ 52)"
    by (simp only: round_even_of_int of_int_le_iff)
  then have "real_of_int (round_even (x / q)) * q \<le> real_of_int (2 ^ 52) * q"
    using qpos by (intro mult_right_mono) simp_all
  then show ?thesis unfolding pb by (simp add: nearest_def q [folded q_def])
qed

lemma expo_mono:
  assumes "0 < x" and "x \<le> y"
  shows "expo x \<le> expo y"
proof (rule ccontr)
  assume "\<not> expo x \<le> expo y"
  then have "power_int (2::real) (expo y + 1) \<le> power_int 2 (expo x)"
    by (intro power_int_increasing) simp_all
  moreover have "power_int 2 (expo x) \<le> x" using expo_bounds(1) [of x] assms(1) by simp
  moreover have "y < power_int 2 (expo y + 1)" using expo_bounds(2) [of y] assms by simp
  ultimately show False using assms(2) by linarith
qed

lemma nearest_mono_pos:
  assumes "0 < x" and "x \<le> y"
  shows "nearest x \<le> nearest y"
proof -
  from assms have y: "0 < y" by simp
  have e: "expo x \<le> expo y" by (rule expo_mono [OF assms])
  show ?thesis
  proof (cases "max (expo x) (- 1022) = max (expo y) (- 1022)")
    case True
    then have g: "grid x = grid y" by (simp add: grid_def)
    have "x / grid y \<le> y / grid y"
      using assms(2) by (intro divide_right_mono) (simp_all add: less_imp_le)
    then have "round_even (x / grid y) \<le> round_even (y / grid y)" by (rule round_even_mono)
    then have "real_of_int (round_even (x / grid y)) * grid y \<le>
        real_of_int (round_even (y / grid y)) * grid y"
      by (intro mult_right_mono) (simp_all add: less_imp_le)
    then show ?thesis by (simp add: nearest_def g)
  next
    case False
    with e have ey: "- 1022 \<le> expo y" and lt: "max (expo x) (- 1022) + 1 \<le> expo y"
      by (simp_all add: max_def split: if_splits)
    have "nearest x \<le> power_int 2 (max (expo x) (- 1022) + 1)"
    proof (cases "- 1022 \<le> expo x")
      case True
      with nearest_normal(2) [OF assms(1) True] show ?thesis by (simp add: max_def)
    next
      case False
      then have "nearest x \<le> power_int 2 (- 1022)"
        by (intro nearest_subnormal [OF assms(1)]) simp
      also have "\<dots> \<le> power_int 2 (- 1022 + 1)"
        by (intro power_int_increasing) simp_all
      finally show ?thesis using False by (simp add: max_def)
    qed
    also have "\<dots> \<le> power_int 2 (expo y)"
      using lt by (intro power_int_increasing) simp_all
    also have "\<dots> \<le> nearest y" by (rule nearest_normal(1) [OF y ey])
    finally show ?thesis .
  qed
qed

lemma nearest_mono:
  assumes "x \<le> y"
  shows "nearest x \<le> nearest y"
proof -
  consider "0 < x" | "x \<le> 0" "0 \<le> y" | "y < 0" by linarith
  then show ?thesis
  proof cases
    case 1
    then show ?thesis using assms by (rule nearest_mono_pos)
  next
    case 2
    have "0 \<le> nearest (- x)" using 2(1) by (intro nearest_nonneg) simp
    then have "nearest x \<le> 0" by (simp add: nearest_minus)
    also have "0 \<le> nearest y" using 2(2) by (rule nearest_nonneg)
    finally show ?thesis .
  next
    case 3
    then have "nearest (- y) \<le> nearest (- x)"
      using assms by (intro nearest_mono_pos) simp_all
    then show ?thesis by (simp add: nearest_minus)
  qed
qed

lemma nearest_error: "\<bar>nearest x - x\<bar> \<le> grid x / 2"
proof -
  have "nearest x - x = (real_of_int (round_even (x / grid x)) - x / grid x) * grid x"
    by (simp add: nearest_def field_simps)
  then have "\<bar>nearest x - x\<bar> =
      \<bar>real_of_int (round_even (x / grid x)) - x / grid x\<bar> * grid x"
    by (simp add: abs_mult abs_of_pos)
  also have "\<dots> \<le> 1 / 2 * grid x"
    by (intro mult_right_mono round_even_error) (simp add: less_imp_le)
  finally show ?thesis by simp
qed

lemma nearest_fix:
  assumes "y = real_of_int m * grid y"
  shows "nearest y = y"
proof -
  have d: "y / grid y = real_of_int m"
    using assms by (simp add: nonzero_divide_eq_eq)
  have "nearest y = real_of_int (round_even (y / grid y)) * grid y" by (simp add: nearest_def)
  also have "\<dots> = real_of_int m * grid y" by (simp only: d round_even_of_int)
  also have "\<dots> = y" by (rule assms [symmetric])
  finally show ?thesis .
qed

lemma nearest_idem_pos:
  assumes "0 < x"
  shows "nearest (nearest x) = nearest x"
proof -
  define y where "y = nearest x"
  define m where "m = round_even (x / grid x)"
  have ym: "y = real_of_int m * grid x" by (simp add: y_def m_def nearest_def)
  have y0: "0 \<le> y" unfolding y_def using assms by (intro nearest_nonneg) simp
  show ?thesis
  proof (cases "y = 0")
    case True
    then show ?thesis by (simp add: y_def [symmetric])
  next
    case False
    with y0 have ypos: "0 < y" by simp
    then have yabs: "\<bar>y\<bar> = y" by simp
    have "nearest y = y"
    proof (cases "- 1022 \<le> expo x")
      case True
      then have gx: "grid x = power_int 2 (expo x - 52)" by (simp add: grid_def max_def)
      have lo: "power_int 2 (expo x) \<le> y" and hi: "y \<le> power_int 2 (expo x + 1)"
        unfolding y_def by (rule nearest_normal [OF assms True])+
      show ?thesis
      proof (cases "y = power_int 2 (expo x + 1)")
        case False
        with hi have "y < power_int 2 (expo x + 1)" by simp
        with lo have "expo y = expo x" by (intro expo_unique) (simp_all add: yabs)
        then have "grid y = grid x" by (simp add: grid_def)
        with ym show ?thesis by (intro nearest_fix [of y m]) simp
      next
        case eq: True
        have "y < power_int 2 (expo x + 1 + 1)"
          unfolding eq by (intro power_int_strict_increasing) simp_all
        then have "expo y = expo x + 1"
          using eq by (intro expo_unique) (simp_all add: yabs)
        then have gy: "grid y = power_int 2 (expo x + 1 - 52)"
          using True by (simp add: grid_def max_def)
        have "power_int (2::real) (expo x + 1) =
            real_of_int (2 ^ 52) * power_int 2 (expo x + 1 - 52)"
          using power_int_add [of "2::real" 52 "expo x + 1 - 52"] by (simp add: add.commute)
        with eq have yy: "y = real_of_int (2 ^ 52) * power_int 2 (expo x + 1 - 52)" by simp
        have "y = real_of_int (2 ^ 52) * grid y" unfolding gy by (rule yy)
        then show ?thesis by (rule nearest_fix)
      qed
    next
      case False
      then have gx: "grid x = power_int 2 (- 1022 - 52)" by (simp add: grid_def max_def)
      have "y \<le> power_int 2 (- 1022)"
        unfolding y_def using False by (intro nearest_subnormal [OF assms]) simp
      also have "\<dots> < power_int 2 (- 1021)"
        by (intro power_int_strict_increasing) simp_all
      finally have "y < power_int 2 (- 1021)" .
      moreover have "power_int 2 (expo y) \<le> y" using expo_bounds(1) [of y] ypos by simp
      ultimately have "power_int (2::real) (expo y) < power_int 2 (- 1021)" by simp
      then have "expo y \<le> - 1022"
      proof -
        have "expo y < - 1021"
        proof (rule ccontr)
          assume "\<not> expo y < - 1021"
          then have "power_int (2::real) (- 1021) \<le> power_int 2 (expo y)"
            by (intro power_int_increasing) simp_all
          with \<open>power_int (2::real) (expo y) < power_int 2 (- 1021)\<close> show False by simp
        qed
        then show ?thesis by simp
      qed
      with False have "max (expo y) (- 1022) = max (expo x) (- 1022)"
        by (simp add: max_def)
      then have "grid y = grid x" by (simp only: grid_def)
      with ym show ?thesis by (intro nearest_fix [of y m]) simp
    qed
    then show ?thesis by (simp add: y_def)
  qed
qed

lemma nearest_idem: "nearest (nearest x) = nearest x"
proof -
  consider "0 < x" | "x = 0" | "x < 0" by linarith
  then show ?thesis
  proof cases
    case 1
    then show ?thesis by (rule nearest_idem_pos)
  next
    case 2
    then show ?thesis by simp
  next
    case 3
    then have "nearest (nearest (- x)) = nearest (- x)" by (intro nearest_idem_pos) simp
    then show ?thesis by (simp add: nearest_minus)
  qed
qed

lemma rnd_Fin_iff:
  "rnd x = Fin y \<longleftrightarrow>
     y = nearest x \<and> - power_int 2 1024 < nearest x \<and> nearest x < power_int 2 1024"
  by (auto simp: rnd_def Let_def)

lemma rnd_between:
  assumes a: "rnd a = Fin a'" and b: "rnd b = Fin b'" and "a \<le> x" and "x \<le> b"
  shows "\<exists>v. rnd x = Fin v \<and> a' \<le> v \<and> v \<le> b'"
proof -
  from a b have "a' = nearest a" "- power_int 2 1024 < nearest a"
    "b' = nearest b" "nearest b < power_int 2 1024"
    by (simp_all add: rnd_Fin_iff)
  moreover have "nearest a \<le> nearest x" "nearest x \<le> nearest b"
    by (simp_all add: nearest_mono assms(3,4))
  ultimately have "rnd x = Fin (nearest x) \<and> a' \<le> nearest x \<and> nearest x \<le> b'"
    by (simp add: rnd_Fin_iff)
  then show ?thesis by blast
qed

lemma rnd_idem:
  assumes "rnd x = Fin y"
  shows "rnd y = Fin y"
  using assms by (simp add: rnd_Fin_iff nearest_idem)

lemma nearest_large:
  assumes "1024 \<le> expo x"
  shows "power_int 2 1024 \<le> \<bar>nearest x\<bar>"
proof -
  have large: "power_int 2 1024 \<le> nearest z" if "0 < z" and "1024 \<le> expo z" for z
  proof -
    have "power_int (2::real) 1024 \<le> power_int 2 (expo z)"
      using that(2) by (intro power_int_increasing) simp_all
    also have "\<dots> \<le> nearest z" using that by (intro nearest_normal(1)) simp_all
    finally show ?thesis .
  qed
  have "x \<noteq> 0" using assms by (auto simp: expo_def bitlen_alt_def)
  then consider "0 < x" | "0 < - x" by linarith
  then show ?thesis
  proof cases
    case 1
    with large [OF 1 assms] show ?thesis by simp
  next
    case 2
    with large [OF 2] assms have "power_int 2 1024 \<le> nearest (- x)" by simp
    then show ?thesis by (simp add: nearest_minus)
  qed
qed

lemma rnd_error:
  assumes "rnd x = Fin y"
  shows "\<bar>y - x\<bar> \<le> power_int 2 970"
proof -
  from assms have y: "y = nearest x" and fin: "\<bar>nearest x\<bar> < power_int 2 1024"
    by (simp_all add: rnd_Fin_iff abs_less_iff)
  have "expo x \<le> 1023"
  proof (rule ccontr)
    assume "\<not> expo x \<le> 1023"
    then have "power_int 2 1024 \<le> \<bar>nearest x\<bar>" by (intro nearest_large) simp
    with fin show False by simp
  qed
  then have "grid x \<le> power_int 2 (1023 - 52)"
    unfolding grid_def by (intro power_int_increasing) simp_all
  then have "grid x / 2 \<le> power_int 2 971 / 2" by simp
  also have "power_int 2 971 / 2 = (power_int 2 970 :: real)" by simp
  finally show ?thesis using nearest_error [of x] by (simp add: y)
qed

lemma nearest_exact:
  assumes x: "x = real_of_int m * power_int 2 k" and m: "\<bar>m\<bar> < 2 ^ 53" and k: "- 1074 \<le> k"
  shows "nearest x = x"
proof (cases "x = 0")
  case True
  then show ?thesis by simp
next
  case False
  have p: "0 < (power_int 2 k :: real)" by (simp add: power_int_def)
  have "\<bar>x\<bar> = real_of_int \<bar>m\<bar> * power_int 2 k" using p by (simp add: x abs_mult)
  also have "\<dots> < real_of_int (2 ^ 53) * power_int 2 k"
    using m p by (intro mult_strict_right_mono) simp_all
  also have "\<dots> = power_int 2 (53 + k)"
    using power_int_add [of "2::real" 53 k] by simp
  finally have "\<bar>x\<bar> < power_int 2 (53 + k)" .
  moreover have "power_int 2 (expo x) \<le> \<bar>x\<bar>" by (rule expo_bounds(1) [OF False])
  ultimately have lt: "power_int (2::real) (expo x) < power_int 2 (53 + k)" by simp
  have "expo x < 53 + k"
  proof (rule ccontr)
    assume "\<not> expo x < 53 + k"
    then have "power_int (2::real) (53 + k) \<le> power_int 2 (expo x)"
      by (intro power_int_increasing) simp_all
    with lt show False by simp
  qed
  with k have d: "0 \<le> k - (max (expo x) (- 1022) - 52)" by (simp add: max_def)
  define j where "j = nat (k - (max (expo x) (- 1022) - 52))"
  have "power_int (2::real) k = power_int 2 (int j) * grid x"
    unfolding grid_def j_def
    using power_int_add [of "2::real" "k - (max (expo x) (- 1022) - 52)"
        "max (expo x) (- 1022) - 52"] d
    by simp
  then have "x = real_of_int (m * 2 ^ j) * grid x" by (simp add: x)
  then show ?thesis by (rule nearest_fix)
qed

lemma rnd_exact:
  assumes x: "x = real_of_int m * power_int 2 k" and m: "\<bar>m\<bar> < 2 ^ 53"
    and k: "- 1074 \<le> k" "k \<le> 971"
  shows "rnd x = Fin x"
proof -
  have n: "nearest x = x" by (rule nearest_exact [OF x m k(1)])
  have p: "0 < (power_int 2 k :: real)" by (simp add: power_int_def)
  have "\<bar>x\<bar> = real_of_int \<bar>m\<bar> * power_int 2 k" using p by (simp add: x abs_mult)
  also have "\<dots> \<le> real_of_int \<bar>m\<bar> * power_int 2 971"
    using k(2) by (intro mult_left_mono power_int_increasing) simp_all
  also have "\<dots> < real_of_int (2 ^ 53) * power_int 2 971"
    using m by (intro mult_strict_right_mono) simp_all
  also have "\<dots> = power_int 2 1024"
    using power_int_add [of "2::real" 53 971] by simp
  finally have "\<bar>x\<bar> < power_int 2 1024" .
  then show ?thesis by (simp add: rnd_Fin_iff n abs_less_iff)
qed

lemma nearest_eval:
  assumes "power_int 2 e \<le> \<bar>x\<bar>" and "\<bar>x\<bar> < power_int 2 (e + 1)" and "- 1022 \<le> e"
  shows "nearest x =
    real_of_int (round_even (x / power_int 2 (e - 52))) * power_int 2 (e - 52)"
proof -
  have "expo x = e" using assms(1,2) by (rule expo_unique)
  with assms(3) show ?thesis by (simp add: nearest_def grid_def max_def)
qed

lemma rnd_minus: "rnd (- x) = fneg (rnd x)"
  by (simp add: rnd_def Let_def nearest_minus)

lemma round_even_near:
  assumes "\<bar>z - real_of_int m\<bar> < 1 / 2"
  shows "round_even z = m"
proof -
  have "\<bar>real_of_int (round_even z) - z\<bar> \<le> 1 / 2" by (rule round_even_error)
  with assms have "\<bar>real_of_int (round_even z) - real_of_int m\<bar> < 1" by linarith
  then have "\<bar>real_of_int (round_even z - m)\<bar> < 1" by simp
  then have "\<bar>round_even z - m\<bar> < 1" by linarith
  then show ?thesis by simp
qed

lemma rnd_0 [simp]: "rnd 0 = Fin 0"
  by (simp add: rnd_def)

lemma rnd_1 [simp]: "rnd 1 = Fin 1"
  by (rule rnd_exact [of _ 1 0]) simp_all

lemma rnd_2: "rnd 2 = Fin 2"
  by (rule rnd_exact [of _ 2 0]) simp_all

lemma rnd_pow2:
  assumes "- 1074 \<le> k" and "k \<le> 1023"
  shows "rnd (power_int 2 k) = Fin (power_int 2 k)"
proof (cases "k \<le> 971")
  case True
  show ?thesis by (rule rnd_exact [of _ 1 k]) (use assms True in simp_all)
next
  case False
  then have j: "0 \<le> k - 971" "k - 971 < 53" using assms by simp_all
  have "power_int (2::real) k = power_int 2 (k - 971) * power_int 2 971"
    using power_int_add [of "2::real" "k - 971" 971] by simp
  also have "power_int (2::real) (k - 971) = real_of_int (2 ^ nat (k - 971))"
    using j by (simp add: power_int_def)
  finally have x: "power_int (2::real) k = real_of_int (2 ^ nat (k - 971)) * power_int 2 971" .
  have "(2::int) ^ nat (k - 971) < 2 ^ 53"
    using j by (intro power_strict_increasing) simp_all
  then show ?thesis by (intro rnd_exact [OF x]) simp_all
qed

lemma rnd_eval:
  assumes "power_int 2 e \<le> \<bar>x\<bar>" and "\<bar>x\<bar> < power_int 2 (e + 1)" and "- 1022 \<le> e"
    and "round_even (x / power_int 2 (e - 52)) = m"
    and "\<bar>real_of_int m * power_int 2 (e - 52)\<bar> < power_int 2 1024"
  shows "rnd x = Fin (real_of_int m * power_int 2 (e - 52))"
proof -
  from nearest_eval [OF assms(1,2,3)] assms(4)
  have "nearest x = real_of_int m * power_int 2 (e - 52)" by simp
  with assms(5) show ?thesis by (simp add: rnd_Fin_iff abs_less_iff)
qed

lemma rnd_PInf:
  assumes "power_int 2 1024 \<le> x"
  shows "rnd x = PInf"
proof -
  have "nearest (power_int 2 1024) = power_int 2 1024"
    by (rule nearest_exact [of _ 1 1024]) simp_all
  with nearest_mono [OF assms] show ?thesis by (simp add: rnd_def)
qed

lemma rnd_NInf:
  assumes "x \<le> - power_int 2 1024"
  shows "rnd x = NInf"
proof -
  from assms have "rnd (- x) = PInf" by (intro rnd_PInf) simp
  then have "fneg (rnd x) = PInf" by (simp add: rnd_minus)
  then show ?thesis by (cases "rnd x") simp_all
qed

lemma rnd_max_double: "rnd max_double = Fin max_double"
  by (rule rnd_exact [of _ "2 ^ 53 - 1" 971]) (simp_all add: max_double_def)

lemma rnd_below_max: "rnd (- max_double - 2) = Fin (- max_double)"
proof -
  have b: "power_int 2 1023 \<le> \<bar>max_double + 2\<bar>" "\<bar>max_double + 2\<bar> < power_int 2 (1023 + 1)"
    by (simp_all add: max_double_def)
  have r: "round_even ((max_double + 2) / power_int 2 (1023 - 52)) = 2 ^ 53 - 1"
    by (rule round_even_near) (simp add: max_double_def field_simps)
  have "nearest (max_double + 2) =
      real_of_int (round_even ((max_double + 2) / power_int 2 (1023 - 52))) *
        power_int 2 (1023 - 52)"
    by (rule nearest_eval [OF b]) simp
  then have "nearest (max_double + 2) = max_double"
    unfolding r by (simp add: max_double_def)
  then have "rnd (max_double + 2) = Fin max_double"
    by (simp add: rnd_Fin_iff max_double_def)
  then have "rnd (- (max_double + 2)) = Fin (- max_double)"
    unfolding rnd_minus by simp
  then show ?thesis by (simp add: algebra_simps)
qed

lemma rnd_absorb: "rnd (2 + power_int 2 970) = Fin (power_int 2 970)"
proof -
  have b: "power_int 2 970 \<le> \<bar>2 + power_int 2 970 :: real\<bar>"
    "\<bar>2 + power_int 2 970 :: real\<bar> < power_int 2 (970 + 1)"
    by simp_all
  have r: "round_even ((2 + power_int 2 970) / power_int 2 (970 - 52)) = 2 ^ 52"
    by (rule round_even_near) (simp add: field_simps)
  have "nearest (2 + power_int 2 970) =
      real_of_int (round_even ((2 + power_int 2 970) / power_int 2 (970 - 52))) *
        power_int 2 (970 - 52)"
    by (rule nearest_eval [OF b]) simp
  then have "nearest (2 + power_int 2 970) = power_int 2 970"
    unfolding r by simp
  then show ?thesis by (simp add: rnd_Fin_iff)
qed

lemma double_le_max:
  assumes "rnd x = Fin x"
  shows "\<bar>x\<bar> \<le> max_double"
proof (cases "\<bar>x\<bar> < power_int 2 1023")
  case True
  moreover have "power_int 2 1023 \<le> max_double" by (simp add: max_double_def)
  ultimately show ?thesis by simp
next
  case False
  from assms have n: "nearest x = x" and fin: "\<bar>x\<bar> < power_int 2 1024"
    by (simp_all add: rnd_Fin_iff abs_less_iff)
  have b: "power_int 2 1023 \<le> \<bar>x\<bar>" "\<bar>x\<bar> < power_int 2 (1023 + 1)"
    using False fin by simp_all
  define m where "m = round_even (x / power_int 2 (1023 - 52))"
  have x: "x = real_of_int m * 2 ^ 971"
    using nearest_eval [OF b] n by (simp add: m_def)
  then have "\<bar>x\<bar> = real_of_int \<bar>m\<bar> * 2 ^ 971" by (simp add: abs_mult)
  with fin have "real_of_int \<bar>m\<bar> * 2 ^ 971 < 2 ^ 53 * 2 ^ 971" by simp
  then have "real_of_int \<bar>m\<bar> < real_of_int (2 ^ 53)" by simp
  then have "\<bar>m\<bar> < 2 ^ 53" by (simp only: of_int_less_iff)
  then have "\<bar>m\<bar> \<le> 2 ^ 53 - 1" by simp
  then have "real_of_int \<bar>m\<bar> \<le> real_of_int (2 ^ 53 - 1)" by (simp only: of_int_le_iff)
  then have "real_of_int \<bar>m\<bar> \<le> 2 ^ 53 - 1" by simp
  then have "real_of_int \<bar>m\<bar> * 2 ^ 971 \<le> (2 ^ 53 - 1) * 2 ^ 971"
    by (intro mult_right_mono) simp_all
  then show ?thesis by (simp add: \<open>\<bar>x\<bar> = real_of_int \<bar>m\<bar> * 2 ^ 971\<close> max_double_def)
qed

lemma double_below_one:
  assumes "rnd a = Fin a" and "a < 1"
  shows "a \<le> 1 - power_int 2 (- 53)"
proof (cases "a < 1 / 2")
  case True
  then show ?thesis by simp
next
  case False
  from assms have n: "nearest a = a" by (simp add: rnd_Fin_iff)
  have b: "power_int 2 (- 1) \<le> \<bar>a\<bar>" "\<bar>a\<bar> < power_int 2 (- 1 + 1)"
    using False assms(2) by simp_all
  define m where "m = round_even (a / power_int 2 (- 1 - 52))"
  have a: "a = real_of_int m / 2 ^ 53"
    using nearest_eval [OF b] n by (simp add: m_def)
  with assms(2) have "real_of_int m < real_of_int (2 ^ 53)" by (simp add: field_simps)
  then have "m < 2 ^ 53" by (simp only: of_int_less_iff)
  then have "m \<le> 2 ^ 53 - 1" by simp
  then have "real_of_int m \<le> real_of_int (2 ^ 53 - 1)" by (simp only: of_int_le_iff)
  then have "real_of_int m \<le> 2 ^ 53 - 1" by simp
  then have "real_of_int m / 2 ^ 53 \<le> (2 ^ 53 - 1) / 2 ^ 53"
    by (intro divide_right_mono) simp_all
  then show ?thesis by (simp add: a field_simps)
qed

subsection \<open>A list of one item\<close>

lemma single_item_loop64:
  assumes x: "rnd x = Fin x" and a: "rnd a = Fin a" and a0: "0 \<le> a" and a1: "a < 1"
  shows "loop_body64 [Fin x] (Fin a) [Fin 0] [0] = Exit64 [Fin 1]"
proof -
  (* twice one minus alpha *)
  have "power_int 2 (- 53) \<le> 1 - a" using double_below_one [OF a a1] by simp
  moreover have "1 - a \<le> 1" using a0 by simp
  ultimately obtain c1 where c1: "rnd (1 - a) = Fin c1"
    and c1_lo: "power_int 2 (- 53) \<le> c1" and c1_hi: "c1 \<le> 1"
    using rnd_between [OF rnd_pow2 [of "- 53"] rnd_1, of "1 - a"] by auto
  have "power_int 2 (- 52) \<le> 2 * c1"
    using c1_lo power_int_add [of "2::real" 1 "- 53"] by simp
  moreover have "2 * c1 \<le> 2" using c1_hi by simp
  ultimately obtain c where c: "rnd (2 * c1) = Fin c"
    and c_lo: "power_int 2 (- 52) \<le> c" and c_hi: "c \<le> 2"
    using rnd_between [OF rnd_pow2 [of "- 52"] rnd_2, of "2 * c1"] by auto
  have "0 < (power_int 2 (- 52) :: real)" by (simp add: power_int_def)
  with c_lo have c_pos: "0 < c" by linarith
  (* alpha times sumR, which is alpha times r[0] *)
  have "\<bar>a * x\<bar> \<le> \<bar>x\<bar>"
    using a0 a1 by (simp add: abs_mult mult_left_le_one_le)
  with double_le_max [OF x] have "- max_double \<le> a * x" "a * x \<le> max_double" by linarith+
  then obtain p where p: "rnd (a * x) = Fin p"
    and p_lo: "- max_double \<le> p" and p_hi: "p \<le> max_double"
    using rnd_between [OF _ rnd_max_double, of "- max_double" "- max_double" "a * x"]
    by (auto simp: rnd_minus rnd_max_double)
  (* lambda *)
  have "- max_double - 2 \<le> p - c" using p_lo c_hi by simp
  moreover have "p - c \<le> p" using c_pos by simp
  ultimately obtain t where t: "rnd (p - c) = Fin t" and t_hi: "t \<le> p"
    using rnd_between [OF rnd_below_max rnd_idem [OF p], of "p - c"] by auto
  have lam: "lagrange64 [Fin x] (Fin a) [0] = Fin t"
    by (simp add: lagrange64_def fsub_def x c1 c p t rnd_idem [OF t])
  (* the provisional weight *)
  have "\<bar>t - (p - c)\<bar> \<le> power_int 2 970" by (rule rnd_error [OF t])
  then have "p - t \<le> 2 + power_int 2 970" using c_hi by linarith
  moreover have "0 \<le> p - t" using t_hi by simp
  ultimately obtain n1 where n1: "rnd (p - t) = Fin n1"
    and n1_lo: "0 \<le> n1" and n1_hi: "n1 \<le> power_int 2 970"
    using rnd_between [OF rnd_0 rnd_absorb, of "p - t"] by auto
  have "n1 / c \<le> power_int 2 970 / power_int 2 (- 52)"
    using n1_lo n1_hi c_lo by (intro frac_le) (simp_all add: power_int_def)
  also have "\<dots> = power_int 2 1022"
    using power_int_diff [of "2::real" 970 "- 52"] by simp
  finally have "n1 / c \<le> power_int 2 1022" .
  moreover have "0 \<le> n1 / c" using n1_lo c_pos by simp
  ultimately obtain w where w: "rnd (n1 / c) = Fin w" and w_lo: "0 \<le> w"
    using rnd_between [OF rnd_0 rnd_pow2 [of 1022], of "n1 / c"] by auto
  have prov: "provisional64 [Fin x] (Fin a) (Fin t) 0 = Fin w"
    using c_pos by (simp add: provisional64_def fsub_def c1 c p n1 w)
  have assign: "assign_provisional64 [Fin x] (Fin a) (Fin t) [0] [Fin 0] = ([Fin w], False)"
    using w_lo by (simp add: assign_provisional64_def prov)
  (* normalisation *)
  have sumW: "sumW64 [0] [Fin w] = Fin w"
    by (simp add: sumW64_def rnd_idem [OF w])
  have "normalize64 [0] [Fin w] = [Fin 1]"
  proof (cases "w = 0")
    case True
    with sumW show ?thesis by (simp add: normalize64_def fle_def feq_def)
  next
    case False
    with w_lo have "\<not> fle (Fin w) (Fin 0)" by (simp add: fle_def feq_def)
    with False show ?thesis by (simp add: normalize64_def sumW)
  qed
  then show ?thesis by (simp add: loop_body64_def lam assign)
qed

text \<open>
  Claim C5, for the numbers the program computes: for a list of one item whose expected
  return is a finite binary64 number, and for a binary64 alpha in [0, 1], the function
  returns that item with weight exactly 1.
\<close>

theorem single_item_weight_one_double:
  assumes "rnd x = Fin x" and "rnd a = Fin a" and "0 \<le> a" and "a \<le> 1"
  shows "optimizePortfolio64 [\<lparr>sector64 = s, performance64 = Fin x\<rparr>] (Fin a) =
    Some (Inr [\<lparr>sector64 = s, performance64 = Fin x, weight64 = Fin 1\<rparr>])"
proof (cases "a = 1")
  case True
  have "find_max64 [\<lparr>sector64 = s, performance64 = Fin x\<rparr>] 1 0 (Fin x) = Inr 0"
    by (subst find_max64.simps) simp
  with True show ?thesis
    by (simp add: optimizePortfolio64_def feq_def performance_at64_def with_weights64_def)
next
  case False
  with assms(4) have "a < 1" by simp
  from single_item_loop64 [OF assms(1,2,3) this]
  have "active_set_loop64 [Fin x] (Fin a) [Fin 0] [0] = Some [Fin 1]"
    by (subst active_set_loop64.simps) simp
  with False show ?thesis
    by (simp add: optimizePortfolio64_def feq_def with_weights64_def)
qed

theorem single_item_weight_one_double_witness:
  "rnd (1 / 10) \<noteq> Fin (1 / 10) \<and>
   rnd (3602879701896397 / 36028797018963968) = Fin (3602879701896397 / 36028797018963968) \<and>
   rnd (1 / 2) = Fin (1 / 2) \<and> (0::real) \<le> 1 / 2 \<and> (1 / 2 :: real) \<le> 1 \<and>
   optimizePortfolio64
     [\<lparr>sector64 = ''X'', performance64 = Fin (3602879701896397 / 36028797018963968)\<rparr>]
     (Fin (1 / 2)) =
   Some (Inr [\<lparr>sector64 = ''X'',
     performance64 = Fin (3602879701896397 / 36028797018963968), weight64 = Fin 1\<rparr>])"
proof -
  have x: "rnd (3602879701896397 / 36028797018963968) =
      Fin (3602879701896397 / 36028797018963968)"
    by (rule rnd_exact [of _ "3602879701896397" "- 55"]) simp_all
  have a: "rnd (1 / 2) = Fin (1 / 2)" by (rule rnd_exact [of _ "1" "- 1"]) simp_all
  have t: "rnd (1 / 10) = Fin (3602879701896397 / 36028797018963968)"
    using rnd_eval [of "- 4" "1 / 10" "7205759403792794"] by (simp add: round_even_def)
  have b: "(0::real) \<le> 1 / 2" "(1 / 2 :: real) \<le> 1" by simp_all
  from single_item_weight_one_double [OF x a b, of "''X''"] x a t show ?thesis by simp
qed

text \<open>
  Claim C5 as stated, for any expected return and any alpha, fails: for the expected return
  \<open>2^1023\<close> and alpha = 2 the product \<open>alpha * sumR\<close> overflows to infinity, lambda is
  infinite, the provisional weight is (infinity - infinity) / (-2) = NaN, no comparison
  with NaN holds, and the returned weight is NaN / NaN = NaN.
\<close>

theorem single_item_weight_nan:
  "optimizePortfolio64
     [\<lparr>sector64 = ''A'', performance64 = Fin (2 ^ 1023)\<rparr>]
     (Fin 2) =
   Some (Inr
     [\<lparr>sector64 = ''A'', performance64 = Fin (2 ^ 1023), weight64 = NaN\<rparr>])"
proof -
  have r0: "rnd (- 2) = Fin (- 2)"
    by (rule rnd_exact [of _ "- 1" "1"]) simp_all
  have r1: "rnd (- 1) = Fin (- 1)"
    by (rule rnd_exact [of _ "- 1" "0"]) simp_all
  have r2: "rnd (2 ^ 1023) = Fin (2 ^ 1023)"
    by (rule rnd_exact [of _ "4503599627370496" "971"]) simp_all
  have r3: "rnd (2 ^ 1024) = PInf"
    by (rule rnd_PInf) simp
  have b0: "loop_body64 [Fin (2 ^ 1023)]
      (Fin 2) [Fin 0] [0] =
      Exit64 [NaN]"
    using rnd_0 r0 r1 r2 r3
    by (simp add: loop_body64_def lagrange64_def provisional64_def assign_provisional64_def
        remove_negative64_def normalize64_def sumW64_def fsub_def fle_def feq_def Let_def)
  have loop: "active_set_loop64 [Fin (2 ^ 1023)]
      (Fin 2) [Fin 0] [0] =
      Some [NaN]"
    using b0
    by (subst active_set_loop64.simps) simp
  have idx: "[0..<length
      [\<lparr>sector64 = ''A'', performance64 = Fin (2 ^ 1023)\<rparr>]] =
      [0]"
    by (simp add: upt_rec)
  have rep: "replicate (length
      [\<lparr>sector64 = ''A'', performance64 = Fin (2 ^ 1023)\<rparr>]) (Fin 0) =
      [Fin 0]"
    by (simp add: replicate_Suc)
  have perf: "map performance64
      [\<lparr>sector64 = ''A'', performance64 = Fin (2 ^ 1023)\<rparr>] =
      [Fin (2 ^ 1023)]"
    by simp
  show ?thesis
    unfolding optimizePortfolio64_def Let_def idx rep perf loop
    by (simp add: feq_def with_weights64_def upt_rec)
qed

text \<open>
  The expected return has to be finite as well: for the expected return Infinity and
  alpha = 1/2 the returned weight is NaN.
\<close>

lemma single_item_infinite_return:
  "optimizePortfolio64
     [\<lparr>sector64 = ''A'', performance64 = PInf\<rparr>]
     (Fin (1 / 2)) =
   Some (Inr
     [\<lparr>sector64 = ''A'', performance64 = PInf, weight64 = NaN\<rparr>])"
proof -
  have r0: "rnd (1 / 2) = Fin (1 / 2)"
    by (rule rnd_exact [of _ "1" "- 1"]) simp_all
  have r1: "rnd 1 = Fin 1"
    by (rule rnd_exact [of _ "1" "0"]) simp_all
  have b0: "loop_body64 [PInf]
      (Fin (1 / 2)) [Fin 0] [0] =
      Exit64 [NaN]"
    using rnd_0 r0 r1
    by (simp add: loop_body64_def lagrange64_def provisional64_def assign_provisional64_def
        remove_negative64_def normalize64_def sumW64_def fsub_def fle_def feq_def Let_def)
  have loop: "active_set_loop64 [PInf]
      (Fin (1 / 2)) [Fin 0] [0] =
      Some [NaN]"
    using b0
    by (subst active_set_loop64.simps) simp
  have idx: "[0..<length
      [\<lparr>sector64 = ''A'', performance64 = PInf\<rparr>]] =
      [0]"
    by (simp add: upt_rec)
  have rep: "replicate (length
      [\<lparr>sector64 = ''A'', performance64 = PInf\<rparr>]) (Fin 0) =
      [Fin 0]"
    by (simp add: replicate_Suc)
  have perf: "map performance64
      [\<lparr>sector64 = ''A'', performance64 = PInf\<rparr>] =
      [PInf]"
    by simp
  show ?thesis
    unfolding optimizePortfolio64_def Let_def idx rep perf loop
    by (simp add: feq_def with_weights64_def upt_rec)
qed

subsection \<open>Rounding that empties the active list\<close>

text \<open>
  Claim C2 fails in the running program. For three items of expected return 3.3e21 (the
  binary64 number 3300000000000000000000) and alpha = 1/2, the rounded sum \<open>sumR\<close> is
  9900000000000001048576, lambda is 1650000000000000262144 and every provisional weight is
  -262144 instead of 1/3. All three indices are removed, the next iteration leaves the loop
  at \<open>freeCount === 0\<close>, and the function returns the weights 0, 0, 0, whose sum is 0.
\<close>

theorem rounding_empties_active_list:
  "optimizePortfolio64
     [\<lparr>sector64 = ''A'', performance64 = Fin 3300000000000000000000\<rparr>,
      \<lparr>sector64 = ''B'', performance64 = Fin 3300000000000000000000\<rparr>,
      \<lparr>sector64 = ''C'', performance64 = Fin 3300000000000000000000\<rparr>]
     (Fin (1 / 2)) =
   Some (Inr
     [\<lparr>sector64 = ''A'', performance64 = Fin 3300000000000000000000, weight64 = Fin 0\<rparr>,
      \<lparr>sector64 = ''B'', performance64 = Fin 3300000000000000000000, weight64 = Fin 0\<rparr>,
      \<lparr>sector64 = ''C'', performance64 = Fin 3300000000000000000000, weight64 = Fin 0\<rparr>])"
proof -
  have r0: "rnd (- 262144) = Fin (- 262144)"
    by (rule rnd_exact [of _ "- 1" "18"]) simp_all
  have r1: "rnd (1 / 2) = Fin (1 / 2)"
    by (rule rnd_exact [of _ "1" "- 1"]) simp_all
  have r2: "rnd 1 = Fin 1"
    by (rule rnd_exact [of _ "1" "0"]) simp_all
  have r3: "rnd 1650000000000000000000 = Fin 1650000000000000000000"
    by (rule rnd_exact [of _ "3147125244140625" "19"]) simp_all
  have r4: "rnd (4950000000000000524288 / 3) =
      Fin 1650000000000000262144"
    using rnd_eval [of "70" "4950000000000000524288 / 3" "6294250488281251"]
    by (simp add: round_even_def)
  have r5: "rnd 3300000000000000000000 = Fin 3300000000000000000000"
    by (rule rnd_exact [of _ "3147125244140625" "20"]) simp_all
  have r6: "rnd 4950000000000000524287 =
      Fin 4950000000000000524288"
    using rnd_eval [of "72" "4950000000000000524287" "4720687866210938"]
    by (simp add: round_even_def)
  have r7: "rnd 4950000000000000524288 = Fin 4950000000000000524288"
    by (rule rnd_exact [of _ "2360343933105469" "21"]) simp_all
  have r8: "rnd 6600000000000000000000 = Fin 6600000000000000000000"
    by (rule rnd_exact [of _ "3147125244140625" "21"]) simp_all
  have r9: "rnd 9900000000000000000000 =
      Fin 9900000000000001048576"
    using rnd_eval [of "73" "9900000000000000000000" "4720687866210938"]
    by (simp add: round_even_def)
  have b0: "loop_body64 [Fin 3300000000000000000000, Fin 3300000000000000000000, Fin 3300000000000000000000]
      (Fin (1 / 2)) [Fin 0, Fin 0, Fin 0] [0, 1, 2] =
      Again64 [Fin 0, Fin 0, Fin 0] []"
    using rnd_0 r0 r1 r2 r3 r4 r5 r6 r7 r8 r9
    by (simp add: loop_body64_def lagrange64_def provisional64_def assign_provisional64_def
        remove_negative64_def normalize64_def sumW64_def fsub_def fle_def feq_def Let_def)
  have b1: "loop_body64 [Fin 3300000000000000000000, Fin 3300000000000000000000, Fin 3300000000000000000000]
      (Fin (1 / 2)) [Fin 0, Fin 0, Fin 0] [] =
      Exit64 [Fin 0, Fin 0, Fin 0]"
    using rnd_0 r0 r1 r2 r3 r4 r5 r6 r7 r8 r9
    by (simp add: loop_body64_def lagrange64_def provisional64_def assign_provisional64_def
        remove_negative64_def normalize64_def sumW64_def fsub_def fle_def feq_def Let_def)
  have loop: "active_set_loop64 [Fin 3300000000000000000000, Fin 3300000000000000000000, Fin 3300000000000000000000]
      (Fin (1 / 2)) [Fin 0, Fin 0, Fin 0] [0, 1, 2] =
      Some [Fin 0, Fin 0, Fin 0]"
    using b0 b1
    by (subst active_set_loop64.simps, simp, subst active_set_loop64.simps, simp)
  have idx: "[0..<length
      [\<lparr>sector64 = ''A'', performance64 = Fin 3300000000000000000000\<rparr>,
      \<lparr>sector64 = ''B'', performance64 = Fin 3300000000000000000000\<rparr>,
      \<lparr>sector64 = ''C'', performance64 = Fin 3300000000000000000000\<rparr>]] =
      [0, 1, 2]"
    by (simp add: upt_rec)
  have rep: "replicate (length
      [\<lparr>sector64 = ''A'', performance64 = Fin 3300000000000000000000\<rparr>,
      \<lparr>sector64 = ''B'', performance64 = Fin 3300000000000000000000\<rparr>,
      \<lparr>sector64 = ''C'', performance64 = Fin 3300000000000000000000\<rparr>]) (Fin 0) =
      [Fin 0, Fin 0, Fin 0]"
    by (simp add: replicate_Suc)
  have perf: "map performance64
      [\<lparr>sector64 = ''A'', performance64 = Fin 3300000000000000000000\<rparr>,
      \<lparr>sector64 = ''B'', performance64 = Fin 3300000000000000000000\<rparr>,
      \<lparr>sector64 = ''C'', performance64 = Fin 3300000000000000000000\<rparr>] =
      [Fin 3300000000000000000000, Fin 3300000000000000000000, Fin 3300000000000000000000]"
    by simp
  show ?thesis
    unfolding optimizePortfolio64_def Let_def idx rep perf loop
    by (simp add: feq_def with_weights64_def upt_rec)
qed

text \<open>
  Nor is a returned weight always finite: for two items of expected return \<open>2^1023\<close> at
  alpha = 0 the sum \<open>sumR\<close> is infinite, \<open>0 * infinity\<close> is NaN, and both weights are NaN.
\<close>

lemma overflow_gives_nan_weights:
  "optimizePortfolio64
     [\<lparr>sector64 = ''A'', performance64 = Fin (2 ^ 1023)\<rparr>,
      \<lparr>sector64 = ''B'', performance64 = Fin (2 ^ 1023)\<rparr>]
     (Fin 0) =
   Some (Inr
     [\<lparr>sector64 = ''A'', performance64 = Fin (2 ^ 1023), weight64 = NaN\<rparr>,
      \<lparr>sector64 = ''B'', performance64 = Fin (2 ^ 1023), weight64 = NaN\<rparr>])"
proof -
  have r1: "rnd 1 = Fin 1"
    by (rule rnd_exact [of _ "1" "0"]) simp_all
  have r2: "rnd 2 = Fin 2"
    by (rule rnd_exact [of _ "1" "1"]) simp_all
  have r3: "rnd (2 ^ 1023) = Fin (2 ^ 1023)"
    by (rule rnd_exact [of _ "4503599627370496" "971"]) simp_all
  have r4: "rnd (2 ^ 1024) = PInf"
    by (rule rnd_PInf) simp
  have b0: "loop_body64 [Fin (2 ^ 1023), Fin (2 ^ 1023)]
      (Fin 0) [Fin 0, Fin 0] [0, 1] =
      Exit64 [NaN, NaN]"
    using rnd_0 r1 r2 r3 r4
    by (simp add: loop_body64_def lagrange64_def provisional64_def assign_provisional64_def
        remove_negative64_def normalize64_def sumW64_def fsub_def fle_def feq_def Let_def)
  have loop: "active_set_loop64 [Fin (2 ^ 1023), Fin (2 ^ 1023)]
      (Fin 0) [Fin 0, Fin 0] [0, 1] =
      Some [NaN, NaN]"
    using b0
    by (subst active_set_loop64.simps) simp
  have idx: "[0..<length
      [\<lparr>sector64 = ''A'', performance64 = Fin (2 ^ 1023)\<rparr>,
      \<lparr>sector64 = ''B'', performance64 = Fin (2 ^ 1023)\<rparr>]] =
      [0, 1]"
    by (simp add: upt_rec)
  have rep: "replicate (length
      [\<lparr>sector64 = ''A'', performance64 = Fin (2 ^ 1023)\<rparr>,
      \<lparr>sector64 = ''B'', performance64 = Fin (2 ^ 1023)\<rparr>]) (Fin 0) =
      [Fin 0, Fin 0]"
    by (simp add: replicate_Suc)
  have perf: "map performance64
      [\<lparr>sector64 = ''A'', performance64 = Fin (2 ^ 1023)\<rparr>,
      \<lparr>sector64 = ''B'', performance64 = Fin (2 ^ 1023)\<rparr>] =
      [Fin (2 ^ 1023), Fin (2 ^ 1023)]"
    by simp
  show ?thesis
    unfolding optimizePortfolio64_def Let_def idx rep perf loop
    by (simp add: feq_def with_weights64_def upt_rec)
qed


subsection \<open>The index of weight 0\<close>

text \<open>
  Claim C9 fails, and the returned weights show it. For the expected returns
  3300000000000000524288, 3.3e21, 3.3e21 (binary64 numbers) and alpha = 1/2, lambda is
  1650000000000000262144 and the first iteration stores the provisional weights
  0, -262144, -262144. The test \<open>weights[i] > 0\<close> removes index 0, whose weight is exactly
  0 and not negative, together with the two others; the active list is empty and the
  function returns the weights 0, 0, 0. An iteration on the active list [0], where the
  claim leaves index 0, gives it the weight 1.
\<close>

theorem zero_weight_index_removed_binary64:
  "lagrange64
     [Fin 3300000000000000524288, Fin 3300000000000000000000, Fin 3300000000000000000000]
     (Fin (1 / 2)) [0, 1, 2] = Fin 1650000000000000262144 \<and>
   assign_provisional64
     [Fin 3300000000000000524288, Fin 3300000000000000000000, Fin 3300000000000000000000]
     (Fin (1 / 2)) (Fin 1650000000000000262144) [0, 1, 2] [Fin 0, Fin 0, Fin 0] =
   ([Fin 0, Fin (- 262144), Fin (- 262144)], True) \<and>
   remove_negative64 [0, 1, 2] [Fin 0, Fin (- 262144), Fin (- 262144)] =
   ([], [Fin 0, Fin 0, Fin 0]) \<and>
   optimizePortfolio64
     [\<lparr>sector64 = ''A'', performance64 = Fin 3300000000000000524288\<rparr>,
      \<lparr>sector64 = ''B'', performance64 = Fin 3300000000000000000000\<rparr>,
      \<lparr>sector64 = ''C'', performance64 = Fin 3300000000000000000000\<rparr>]
     (Fin (1 / 2)) =
   Some (Inr
     [\<lparr>sector64 = ''A'', performance64 = Fin 3300000000000000524288, weight64 = Fin 0\<rparr>,
      \<lparr>sector64 = ''B'', performance64 = Fin 3300000000000000000000, weight64 = Fin 0\<rparr>,
      \<lparr>sector64 = ''C'', performance64 = Fin 3300000000000000000000, weight64 = Fin 0\<rparr>]) \<and>
   loop_body64
     [Fin 3300000000000000524288, Fin 3300000000000000000000, Fin 3300000000000000000000]
     (Fin (1 / 2)) [Fin 0, Fin 0, Fin 0] [0] = Exit64 [Fin 1, Fin 0, Fin 0]"
proof -
  have r0: "rnd (- 262144) = Fin (- 262144)"
    by (rule rnd_exact [of _ "- 1" "18"]) simp_all
  have r2: "rnd (1 / 2) = Fin (1 / 2)"
    by (rule rnd_exact [of _ "1" "- 1"]) simp_all
  have r3: "rnd 1 = Fin 1"
    by (rule rnd_exact [of _ "1" "0"]) simp_all
  have r4: "rnd 1650000000000000000000 = Fin 1650000000000000000000"
    by (rule rnd_exact [of _ "3147125244140625" "19"]) simp_all
  have r5: "rnd (4950000000000000524288 / 3) =
      Fin 1650000000000000262144"
    using rnd_eval [of "70" "4950000000000000524288 / 3" "6294250488281251"]
    by (simp add: round_even_def)
  have r6: "rnd 1650000000000000262144 = Fin 1650000000000000262144"
    by (rule rnd_exact [of _ "6294250488281251" "18"]) simp_all
  have r7: "rnd 3300000000000000524288 = Fin 3300000000000000524288"
    by (rule rnd_exact [of _ "6294250488281251" "19"]) simp_all
  have r8: "rnd 4950000000000000524287 =
      Fin 4950000000000000524288"
    using rnd_eval [of "72" "4950000000000000524287" "4720687866210938"]
    by (simp add: round_even_def)
  have r9: "rnd 4950000000000000524288 = Fin 4950000000000000524288"
    by (rule rnd_exact [of _ "2360343933105469" "21"]) simp_all
  have r10: "rnd 6600000000000000524288 =
      Fin 6600000000000000000000"
    using rnd_eval [of "72" "6600000000000000524288" "6294250488281250"]
    by (simp add: round_even_def)
  have r11: "rnd 9900000000000000000000 =
      Fin 9900000000000001048576"
    using rnd_eval [of "73" "9900000000000000000000" "4720687866210938"]
    by (simp add: round_even_def)
  have b0: "loop_body64 [Fin 3300000000000000524288, Fin 3300000000000000000000, Fin 3300000000000000000000]
      (Fin (1 / 2)) [Fin 0, Fin 0, Fin 0] [0, 1, 2] =
      Again64 [Fin 0, Fin 0, Fin 0] []"
    using rnd_0 r0 r2 r3 r4 r5 r6 r7 r8 r9 r10 r11
    by (simp add: loop_body64_def lagrange64_def provisional64_def assign_provisional64_def
        remove_negative64_def normalize64_def sumW64_def fsub_def fle_def feq_def Let_def)
  have b1: "loop_body64 [Fin 3300000000000000524288, Fin 3300000000000000000000, Fin 3300000000000000000000]
      (Fin (1 / 2)) [Fin 0, Fin 0, Fin 0] [] =
      Exit64 [Fin 0, Fin 0, Fin 0]"
    using rnd_0 r0 r2 r3 r4 r5 r6 r7 r8 r9 r10 r11
    by (simp add: loop_body64_def lagrange64_def provisional64_def assign_provisional64_def
        remove_negative64_def normalize64_def sumW64_def fsub_def fle_def feq_def Let_def)
  have loop: "active_set_loop64 [Fin 3300000000000000524288, Fin 3300000000000000000000, Fin 3300000000000000000000]
      (Fin (1 / 2)) [Fin 0, Fin 0, Fin 0] [0, 1, 2] =
      Some [Fin 0, Fin 0, Fin 0]"
    using b0 b1
    by (subst active_set_loop64.simps, simp, subst active_set_loop64.simps, simp)
  have idx: "[0..<length
      [\<lparr>sector64 = ''A'', performance64 = Fin 3300000000000000524288\<rparr>,
      \<lparr>sector64 = ''B'', performance64 = Fin 3300000000000000000000\<rparr>,
      \<lparr>sector64 = ''C'', performance64 = Fin 3300000000000000000000\<rparr>]] =
      [0, 1, 2]"
    by (simp add: upt_rec)
  have rep: "replicate (length
      [\<lparr>sector64 = ''A'', performance64 = Fin 3300000000000000524288\<rparr>,
      \<lparr>sector64 = ''B'', performance64 = Fin 3300000000000000000000\<rparr>,
      \<lparr>sector64 = ''C'', performance64 = Fin 3300000000000000000000\<rparr>]) (Fin 0) =
      [Fin 0, Fin 0, Fin 0]"
    by (simp add: replicate_Suc)
  have perf: "map performance64
      [\<lparr>sector64 = ''A'', performance64 = Fin 3300000000000000524288\<rparr>,
      \<lparr>sector64 = ''B'', performance64 = Fin 3300000000000000000000\<rparr>,
      \<lparr>sector64 = ''C'', performance64 = Fin 3300000000000000000000\<rparr>] =
      [Fin 3300000000000000524288, Fin 3300000000000000000000, Fin 3300000000000000000000]"
    by simp
  have main:
    "optimizePortfolio64
        [\<lparr>sector64 = ''A'', performance64 = Fin 3300000000000000524288\<rparr>,
         \<lparr>sector64 = ''B'', performance64 = Fin 3300000000000000000000\<rparr>,
         \<lparr>sector64 = ''C'', performance64 = Fin 3300000000000000000000\<rparr>]
        (Fin (1 / 2)) =
      Some (Inr
        [\<lparr>sector64 = ''A'', performance64 = Fin 3300000000000000524288, weight64 = Fin 0\<rparr>,
         \<lparr>sector64 = ''B'', performance64 = Fin 3300000000000000000000, weight64 = Fin 0\<rparr>,
         \<lparr>sector64 = ''C'', performance64 = Fin 3300000000000000000000, weight64 = Fin 0\<rparr>])"
    unfolding optimizePortfolio64_def Let_def idx rep perf loop
    by (simp add: feq_def with_weights64_def upt_rec)
  have r100: "rnd 1650000000000000262143 =
      Fin 1650000000000000262144"
    using rnd_eval [of "70" "1650000000000000262143" "6294250488281251"]
    by (simp add: round_even_def)
  have lam:
    "lagrange64
        [Fin 3300000000000000524288, Fin 3300000000000000000000, Fin 3300000000000000000000]
        (Fin (1 / 2)) [0, 1, 2] = Fin 1650000000000000262144"
    using rnd_0 r0 r2 r3 r4 r5 r6 r7 r8 r9 r10 r11 r100 by (simp add: lagrange64_def fsub_def)
  have ap:
    "assign_provisional64
        [Fin 3300000000000000524288, Fin 3300000000000000000000, Fin 3300000000000000000000]
        (Fin (1 / 2)) (Fin 1650000000000000262144) [0, 1, 2] [Fin 0, Fin 0, Fin 0] =
      ([Fin 0, Fin (- 262144), Fin (- 262144)], True)"
    using rnd_0 r0 r2 r3 r4 r5 r6 r7 r8 r9 r10 r11 r100
    by (simp add: provisional64_def assign_provisional64_def fsub_def Let_def)
  have rn:
    "remove_negative64 [0, 1, 2] [Fin 0, Fin (- 262144), Fin (- 262144)] =
      ([], [Fin 0, Fin 0, Fin 0])"
    by (simp add: remove_negative64_def)
  have kept:
    "loop_body64
        [Fin 3300000000000000524288, Fin 3300000000000000000000, Fin 3300000000000000000000]
        (Fin (1 / 2)) [Fin 0, Fin 0, Fin 0] [0] = Exit64 [Fin 1, Fin 0, Fin 0]"
    using rnd_0 r0 r2 r3 r4 r5 r6 r7 r8 r9 r10 r11 r100
    by (simp add: loop_body64_def lagrange64_def provisional64_def assign_provisional64_def
        remove_negative64_def normalize64_def sumW64_def fsub_def fle_def feq_def Let_def)
  show ?thesis by (intro conjI) (rule lam, rule ap, rule rn, rule main, rule kept)
qed

subsection \<open>Monotonicity in alpha\<close>

text \<open>
  With rounding, the weight of the first item of highest performance can fall while alpha
  grows and stays below 1: for the expected returns 3.3e21, 3.3e21, 3.3e21, 0 it is 1/4 at
  alpha = 0 and 0 at alpha = 1/2.
\<close>

lemma highest_item_weight_drops_binary64:
  "optimizePortfolio64
     [\<lparr>sector64 = ''A'', performance64 = Fin 3300000000000000000000\<rparr>,
      \<lparr>sector64 = ''B'', performance64 = Fin 3300000000000000000000\<rparr>,
      \<lparr>sector64 = ''C'', performance64 = Fin 3300000000000000000000\<rparr>,
      \<lparr>sector64 = ''D'', performance64 = Fin 0\<rparr>]
     (Fin 0) =
   Some (Inr
     [\<lparr>sector64 = ''A'', performance64 = Fin 3300000000000000000000, weight64 = Fin (1 / 4)\<rparr>,
      \<lparr>sector64 = ''B'', performance64 = Fin 3300000000000000000000, weight64 = Fin (1 / 4)\<rparr>,
      \<lparr>sector64 = ''C'', performance64 = Fin 3300000000000000000000, weight64 = Fin (1 / 4)\<rparr>,
      \<lparr>sector64 = ''D'', performance64 = Fin 0, weight64 = Fin (1 / 4)\<rparr>]) \<and>
   optimizePortfolio64
     [\<lparr>sector64 = ''A'', performance64 = Fin 3300000000000000000000\<rparr>,
      \<lparr>sector64 = ''B'', performance64 = Fin 3300000000000000000000\<rparr>,
      \<lparr>sector64 = ''C'', performance64 = Fin 3300000000000000000000\<rparr>,
      \<lparr>sector64 = ''D'', performance64 = Fin 0\<rparr>]
     (Fin (1 / 2)) =
   Some (Inr
     [\<lparr>sector64 = ''A'', performance64 = Fin 3300000000000000000000, weight64 = Fin 0\<rparr>,
      \<lparr>sector64 = ''B'', performance64 = Fin 3300000000000000000000, weight64 = Fin 0\<rparr>,
      \<lparr>sector64 = ''C'', performance64 = Fin 3300000000000000000000, weight64 = Fin 0\<rparr>,
      \<lparr>sector64 = ''D'', performance64 = Fin 0, weight64 = Fin 0\<rparr>])"
proof -
  have low:
    "optimizePortfolio64
        [\<lparr>sector64 = ''A'', performance64 = Fin 3300000000000000000000\<rparr>,
         \<lparr>sector64 = ''B'', performance64 = Fin 3300000000000000000000\<rparr>,
         \<lparr>sector64 = ''C'', performance64 = Fin 3300000000000000000000\<rparr>,
         \<lparr>sector64 = ''D'', performance64 = Fin 0\<rparr>]
        (Fin 0) =
      Some (Inr
        [\<lparr>sector64 = ''A'', performance64 = Fin 3300000000000000000000, weight64 = Fin (1 / 4)\<rparr>,
         \<lparr>sector64 = ''B'', performance64 = Fin 3300000000000000000000, weight64 = Fin (1 / 4)\<rparr>,
         \<lparr>sector64 = ''C'', performance64 = Fin 3300000000000000000000, weight64 = Fin (1 / 4)\<rparr>,
         \<lparr>sector64 = ''D'', performance64 = Fin 0, weight64 = Fin (1 / 4)\<rparr>])"
  proof -
    have r0: "rnd (- 2) = Fin (- 2)"
    by (rule rnd_exact [of _ "- 1" "1"]) simp_all
    have r1: "rnd (- (1 / 2)) = Fin (- (1 / 2))"
    by (rule rnd_exact [of _ "- 1" "- 1"]) simp_all
    have r3: "rnd (1 / 4) = Fin (1 / 4)"
    by (rule rnd_exact [of _ "1" "- 2"]) simp_all
    have r4: "rnd (1 / 2) = Fin (1 / 2)"
    by (rule rnd_exact [of _ "1" "- 1"]) simp_all
    have r5: "rnd (3 / 4) = Fin (3 / 4)"
    by (rule rnd_exact [of _ "3" "- 2"]) simp_all
    have r6: "rnd 1 = Fin 1"
    by (rule rnd_exact [of _ "1" "0"]) simp_all
    have r7: "rnd 2 = Fin 2"
    by (rule rnd_exact [of _ "1" "1"]) simp_all
    have r8: "rnd 3300000000000000000000 = Fin 3300000000000000000000"
    by (rule rnd_exact [of _ "3147125244140625" "20"]) simp_all
    have r9: "rnd 6600000000000000000000 = Fin 6600000000000000000000"
    by (rule rnd_exact [of _ "3147125244140625" "21"]) simp_all
    have r10: "rnd 9900000000000000000000 =
      Fin 9900000000000001048576"
    using rnd_eval [of "73" "9900000000000000000000" "4720687866210938"]
    by (simp add: round_even_def)
    have r11: "rnd 9900000000000001048576 = Fin 9900000000000001048576"
    by (rule rnd_exact [of _ "2360343933105469" "22"]) simp_all
    have b0: "loop_body64 [Fin 3300000000000000000000, Fin 3300000000000000000000, Fin 3300000000000000000000, Fin 0]
      (Fin 0) [Fin 0, Fin 0, Fin 0, Fin 0] [0, 1, 2, 3] =
      Exit64 [Fin (1 / 4), Fin (1 / 4), Fin (1 / 4), Fin (1 / 4)]"
      using rnd_0 r0 r1 r3 r4 r5 r6 r7 r8 r9 r10 r11
      by (simp add: loop_body64_def lagrange64_def provisional64_def assign_provisional64_def
        remove_negative64_def normalize64_def sumW64_def fsub_def fle_def feq_def Let_def)
    have loop: "active_set_loop64 [Fin 3300000000000000000000, Fin 3300000000000000000000, Fin 3300000000000000000000, Fin 0]
      (Fin 0) [Fin 0, Fin 0, Fin 0, Fin 0] [0, 1, 2, 3] =
      Some [Fin (1 / 4), Fin (1 / 4), Fin (1 / 4), Fin (1 / 4)]"
      using b0
      by (subst active_set_loop64.simps) simp
    have idx: "[0..<length
      [\<lparr>sector64 = ''A'', performance64 = Fin 3300000000000000000000\<rparr>,
      \<lparr>sector64 = ''B'', performance64 = Fin 3300000000000000000000\<rparr>,
      \<lparr>sector64 = ''C'', performance64 = Fin 3300000000000000000000\<rparr>,
      \<lparr>sector64 = ''D'', performance64 = Fin 0\<rparr>]] =
      [0, 1, 2, 3]"
    by (simp add: upt_rec)
    have rep: "replicate (length
      [\<lparr>sector64 = ''A'', performance64 = Fin 3300000000000000000000\<rparr>,
      \<lparr>sector64 = ''B'', performance64 = Fin 3300000000000000000000\<rparr>,
      \<lparr>sector64 = ''C'', performance64 = Fin 3300000000000000000000\<rparr>,
      \<lparr>sector64 = ''D'', performance64 = Fin 0\<rparr>]) (Fin 0) =
      [Fin 0, Fin 0, Fin 0, Fin 0]"
    by (simp add: replicate_Suc)
    have perf: "map performance64
      [\<lparr>sector64 = ''A'', performance64 = Fin 3300000000000000000000\<rparr>,
      \<lparr>sector64 = ''B'', performance64 = Fin 3300000000000000000000\<rparr>,
      \<lparr>sector64 = ''C'', performance64 = Fin 3300000000000000000000\<rparr>,
      \<lparr>sector64 = ''D'', performance64 = Fin 0\<rparr>] =
      [Fin 3300000000000000000000, Fin 3300000000000000000000, Fin 3300000000000000000000, Fin 0]"
    by simp
    show ?thesis
      unfolding optimizePortfolio64_def Let_def idx rep perf loop
      by (simp add: feq_def with_weights64_def upt_rec)
  qed
  have high:
    "optimizePortfolio64
        [\<lparr>sector64 = ''A'', performance64 = Fin 3300000000000000000000\<rparr>,
         \<lparr>sector64 = ''B'', performance64 = Fin 3300000000000000000000\<rparr>,
         \<lparr>sector64 = ''C'', performance64 = Fin 3300000000000000000000\<rparr>,
         \<lparr>sector64 = ''D'', performance64 = Fin 0\<rparr>]
        (Fin (1 / 2)) =
      Some (Inr
        [\<lparr>sector64 = ''A'', performance64 = Fin 3300000000000000000000, weight64 = Fin 0\<rparr>,
         \<lparr>sector64 = ''B'', performance64 = Fin 3300000000000000000000, weight64 = Fin 0\<rparr>,
         \<lparr>sector64 = ''C'', performance64 = Fin 3300000000000000000000, weight64 = Fin 0\<rparr>,
         \<lparr>sector64 = ''D'', performance64 = Fin 0, weight64 = Fin 0\<rparr>])"
  proof -
    have r0: "rnd (- 1237500000000000131072) = Fin (- 1237500000000000131072)"
    by (rule rnd_exact [of _ "- 2360343933105469" "19"]) simp_all
    have r1: "rnd (- 262144) = Fin (- 262144)"
    by (rule rnd_exact [of _ "- 1" "18"]) simp_all
    have r3: "rnd (1 / 2) = Fin (1 / 2)"
    by (rule rnd_exact [of _ "1" "- 1"]) simp_all
    have r4: "rnd 1 = Fin 1"
    by (rule rnd_exact [of _ "1" "0"]) simp_all
    have r5: "rnd 412499999999999868928 = Fin 412499999999999868928"
    by (rule rnd_exact [of _ "196695327758789" "21"]) simp_all
    have r6: "rnd 1237500000000000131072 = Fin 1237500000000000131072"
    by (rule rnd_exact [of _ "2360343933105469" "19"]) simp_all
    have r7: "rnd 1650000000000000000000 = Fin 1650000000000000000000"
    by (rule rnd_exact [of _ "3147125244140625" "19"]) simp_all
    have r8: "rnd (4950000000000000524288 / 3) =
      Fin 1650000000000000262144"
    using rnd_eval [of "70" "4950000000000000524288 / 3" "6294250488281251"]
    by (simp add: round_even_def)
    have r9: "rnd 3300000000000000000000 = Fin 3300000000000000000000"
    by (rule rnd_exact [of _ "3147125244140625" "20"]) simp_all
    have r10: "rnd 4950000000000000524287 =
      Fin 4950000000000000524288"
    using rnd_eval [of "72" "4950000000000000524287" "4720687866210938"]
    by (simp add: round_even_def)
    have r11: "rnd 4950000000000000524288 = Fin 4950000000000000524288"
    by (rule rnd_exact [of _ "2360343933105469" "21"]) simp_all
    have r12: "rnd 6600000000000000000000 = Fin 6600000000000000000000"
    by (rule rnd_exact [of _ "3147125244140625" "21"]) simp_all
    have r13: "rnd 9900000000000000000000 =
      Fin 9900000000000001048576"
    using rnd_eval [of "73" "9900000000000000000000" "4720687866210938"]
    by (simp add: round_even_def)
    have r14: "rnd 9900000000000001048576 = Fin 9900000000000001048576"
    by (rule rnd_exact [of _ "2360343933105469" "22"]) simp_all
    have b0: "loop_body64 [Fin 3300000000000000000000, Fin 3300000000000000000000, Fin 3300000000000000000000, Fin 0]
      (Fin (1 / 2)) [Fin 0, Fin 0, Fin 0, Fin 0] [0, 1, 2, 3] =
      Again64 [Fin 412499999999999868928, Fin 412499999999999868928, Fin 412499999999999868928, Fin 0] [0, 1, 2]"
      using rnd_0 r0 r1 r3 r4 r5 r6 r7 r8 r9 r10 r11 r12 r13 r14
      by (simp add: loop_body64_def lagrange64_def provisional64_def assign_provisional64_def
        remove_negative64_def normalize64_def sumW64_def fsub_def fle_def feq_def Let_def)
    have b1: "loop_body64 [Fin 3300000000000000000000, Fin 3300000000000000000000, Fin 3300000000000000000000, Fin 0]
      (Fin (1 / 2)) [Fin 412499999999999868928, Fin 412499999999999868928, Fin 412499999999999868928, Fin 0] [0, 1, 2] =
      Again64 [Fin 0, Fin 0, Fin 0, Fin 0] []"
      using rnd_0 r0 r1 r3 r4 r5 r6 r7 r8 r9 r10 r11 r12 r13 r14
      by (simp add: loop_body64_def lagrange64_def provisional64_def assign_provisional64_def
        remove_negative64_def normalize64_def sumW64_def fsub_def fle_def feq_def Let_def)
    have b2: "loop_body64 [Fin 3300000000000000000000, Fin 3300000000000000000000, Fin 3300000000000000000000, Fin 0]
      (Fin (1 / 2)) [Fin 0, Fin 0, Fin 0, Fin 0] [] =
      Exit64 [Fin 0, Fin 0, Fin 0, Fin 0]"
      using rnd_0 r0 r1 r3 r4 r5 r6 r7 r8 r9 r10 r11 r12 r13 r14
      by (simp add: loop_body64_def lagrange64_def provisional64_def assign_provisional64_def
        remove_negative64_def normalize64_def sumW64_def fsub_def fle_def feq_def Let_def)
    have loop: "active_set_loop64 [Fin 3300000000000000000000, Fin 3300000000000000000000, Fin 3300000000000000000000, Fin 0]
      (Fin (1 / 2)) [Fin 0, Fin 0, Fin 0, Fin 0] [0, 1, 2, 3] =
      Some [Fin 0, Fin 0, Fin 0, Fin 0]"
      using b0 b1 b2
      by (subst active_set_loop64.simps, simp, subst active_set_loop64.simps, simp, subst active_set_loop64.simps, simp)
    have idx: "[0..<length
      [\<lparr>sector64 = ''A'', performance64 = Fin 3300000000000000000000\<rparr>,
      \<lparr>sector64 = ''B'', performance64 = Fin 3300000000000000000000\<rparr>,
      \<lparr>sector64 = ''C'', performance64 = Fin 3300000000000000000000\<rparr>,
      \<lparr>sector64 = ''D'', performance64 = Fin 0\<rparr>]] =
      [0, 1, 2, 3]"
    by (simp add: upt_rec)
    have rep: "replicate (length
      [\<lparr>sector64 = ''A'', performance64 = Fin 3300000000000000000000\<rparr>,
      \<lparr>sector64 = ''B'', performance64 = Fin 3300000000000000000000\<rparr>,
      \<lparr>sector64 = ''C'', performance64 = Fin 3300000000000000000000\<rparr>,
      \<lparr>sector64 = ''D'', performance64 = Fin 0\<rparr>]) (Fin 0) =
      [Fin 0, Fin 0, Fin 0, Fin 0]"
    by (simp add: replicate_Suc)
    have perf: "map performance64
      [\<lparr>sector64 = ''A'', performance64 = Fin 3300000000000000000000\<rparr>,
      \<lparr>sector64 = ''B'', performance64 = Fin 3300000000000000000000\<rparr>,
      \<lparr>sector64 = ''C'', performance64 = Fin 3300000000000000000000\<rparr>,
      \<lparr>sector64 = ''D'', performance64 = Fin 0\<rparr>] =
      [Fin 3300000000000000000000, Fin 3300000000000000000000, Fin 3300000000000000000000, Fin 0]"
    by simp
    show ?thesis
      unfolding optimizePortfolio64_def Let_def idx rep perf loop
      by (simp add: feq_def with_weights64_def upt_rec)
  qed
  show ?thesis by (intro conjI) (rule low, rule high)
qed

end
